theory Spec2Isabelle
  imports Main
begin

section \<open>Tokens, syntax trees and errors\<close>

text \<open>
  Modelled from the spec: the token kinds of \<^verbatim>\<open>token_types.py\<close>, which is not among the
  sources; section 3 of the specification lists them as a closed enumeration.
\<close>

datatype TokenType =
  INTEGER | FLOAT | IDENTIFIER | PLUS | MINUS | MULTIPLY | DIVIDE | POWER |
  LPAREN | RPAREN | COMMA | SIN | COS | TAN | LOG | EOF

text \<open>
  Modelled from the spec: the token record of the lexer module, which is not among the
  sources: \<^verbatim>\<open>{ type, value: string, position: integer }\<close>. The parser reads the three
  attributes \<^verbatim>\<open>type\<close>, \<^verbatim>\<open>value\<close> and \<^verbatim>\<open>position\<close>.
\<close>

record Token =
  tok_type :: TokenType
  tok_value :: string
  position :: nat

text \<open>The constructor call \<^verbatim>\<open>Token(type, value, position)\<close>.\<close>

definition Token_init :: "TokenType \<Rightarrow> string \<Rightarrow> nat \<Rightarrow> Token" where
  "Token_init ty v p = \<lparr>tok_type = ty, tok_value = v, position = p\<rparr>"

text \<open>
  Modelled from the spec: the node classes of \<^verbatim>\<open>ast_nodes.py\<close>, which is not among the
  sources (section 3 of the specification). A number node holds what \<^verbatim>\<open>int\<close> or
  \<^verbatim>\<open>float\<close> returned; floating point values are outside the embedding, so their type
  is the parameter \<open>'f\<close>.
\<close>

datatype 'f number = PyInt int | PyFloat 'f

datatype 'f node =
    NumberNode "'f number"
  | IdentifierNode string
  | UnaryOpNode string "'f node"
  | BinaryOpNode "'f node" string "'f node"
  | FunctionCallNode string "'f node list"
  | ProgramNode "'f node"

text \<open>
  The exceptions a run of the parser can end with. The text of a \<^verbatim>\<open>SyntaxError\<close> is an
  f-string; it is kept as its template and the values interpolated into it:
  \<^item> \<open>Unexpected_token p t\<close>: \<^verbatim>\<open>f"Unexpected token at position {t.position}: {t}"\<close>,
  \<^item> \<open>Expected_lparen p\<close>: \<^verbatim>\<open>f"Expected '(' after function name at position {p}"\<close>,
  \<^item> \<open>Expected_rparen p\<close>: \<^verbatim>\<open>f"Expected ')' at position {p}"\<close>.

  \<open>AttributeError\<close> is what Python raises for \<^verbatim>\<open>self.current_token.type\<close> when
  \<^verbatim>\<open>current_token\<close> is \<^verbatim>\<open>None\<close>; \<open>ValueError\<close> is raised by the constructor without
  arguments and by \<^verbatim>\<open>int\<close> and \<^verbatim>\<open>float\<close> on a text they do not accept;
  \<open>LexicalError\<close> belongs to the tokenizer.
\<close>

datatype message =
    Unexpected_token nat Token
  | Expected_lparen nat
  | Expected_rparen nat

datatype error =
    SyntaxError message
  | ValueError
  | AttributeError
  | LexicalError char nat

text \<open>
  A run returns \<open>Some (Inr x)\<close>, raises \<open>Some (Inl e)\<close>, or has not finished within the
  recursion depth it was given: \<open>None\<close>.
\<close>

type_synonym 'a outcome = "(error + 'a) option"

definition and_then :: "'a outcome \<Rightarrow> ('a \<Rightarrow> 'b outcome) \<Rightarrow> 'b outcome" where
  "and_then m f = (case m of None \<Rightarrow> None | Some (Inl e) \<Rightarrow> Some (Inl e) | Some (Inr x) \<Rightarrow> f x)"

section \<open>Python's conversion of a text to an integer\<close>

definition is_digit :: "char \<Rightarrow> bool" where
  "is_digit c = (c \<in> set ''0123456789'')"

definition is_space :: "char \<Rightarrow> bool" where
  "is_space c = (of_char c \<in> {9, 10, 11, 12, 13, 32, 133, 160 :: nat})"

definition strip :: "string \<Rightarrow> string" where
  "strip s = rev (dropWhile is_space (rev (dropWhile is_space s)))"

text \<open>Digits, with single underscores allowed between two digits.\<close>

fun digit_part :: "string \<Rightarrow> bool" where
  "digit_part [] = False"
| "digit_part [c] = is_digit c"
| "digit_part (c # d # r) =
     (is_digit c \<and> (if d = CHR ''_'' then digit_part r else digit_part (d # r)))"

definition digits_value :: "string \<Rightarrow> int" where
  "digits_value s =
     foldl (\<lambda>a c. 10 * a + (of_char c - 48)) 0 (filter (\<lambda>c. c \<noteq> CHR ''_'') s)"

text \<open>
  CPython refuses a decimal text of more than 4300 digits (underscores not counted).
\<close>

definition digits_accepted :: "string \<Rightarrow> bool" where
  "digits_accepted s =
     (digit_part s \<and> length (filter (\<lambda>c. c \<noteq> CHR ''_'') s) \<le> 4300)"

text \<open>
  \<^verbatim>\<open>int(s)\<close> in base ten: surrounding whitespace is dropped (the blank, the controls
  9 to 13, and of the characters above 127 the two spaces 133 and 160), one sign is
  allowed, and anything else than accepted digits raises \<^verbatim>\<open>ValueError\<close> (here \<open>None\<close>).
\<close>

definition python_int :: "string \<Rightarrow> int option" where
  "python_int s =
     (case strip s of
        [] \<Rightarrow> None
      | c # r \<Rightarrow>
          if c = CHR ''-'' then (if digits_accepted r then Some (- digits_value r) else None)
          else if c = CHR ''+'' then (if digits_accepted r then Some (digits_value r) else None)
          else if digits_accepted (c # r) then Some (digits_value (c # r))
          else None)"

section \<open>The tokenizer\<close>

text \<open>
  Modelled from the spec: the lexer (\<^verbatim>\<open>lexer.py\<close>, which is not among the sources),
  after section 4.1 of the specification: whitespace is skipped; a maximal run of digits
  is an \<open>INTEGER\<close>, with one decimal point a \<open>FLOAT\<close>; a run of letters, digits and
  underscores starting with a letter or underscore is an \<open>IDENTIFIER\<close>, unless it is one
  of the reserved spellings; the eight single characters map to their kinds; any other
  character is a \<open>LexicalError\<close>; the sequence ends in one \<open>EOF\<close> token.
\<close>

definition is_blank :: "char \<Rightarrow> bool" where
  "is_blank c = (c \<in> set [CHR '' '', CHR 0x09, CHR 0x0A, CHR 0x0B, CHR 0x0C, CHR 0x0D])"

definition is_letter :: "char \<Rightarrow> bool" where
  "is_letter c =
     (c \<in> set ''abcdefghijklmnopqrstuvwxyzABCDEFGHIJKLMNOPQRSTUVWXYZ_'')"

definition is_name_char :: "char \<Rightarrow> bool" where
  "is_name_char c = (is_letter c \<or> is_digit c)"

definition keyword :: "string \<Rightarrow> TokenType" where
  "keyword s =
     (if s = ''sin'' then SIN else if s = ''cos'' then COS
      else if s = ''tan'' then TAN else if s = ''log'' then LOG else IDENTIFIER)"

definition single_char :: "char \<rightharpoonup> TokenType" where
  "single_char =
     [CHR ''+'' \<mapsto> PLUS, CHR ''-'' \<mapsto> MINUS, CHR ''*'' \<mapsto> MULTIPLY, CHR ''/'' \<mapsto> DIVIDE,
      CHR ''^'' \<mapsto> POWER, CHR ''('' \<mapsto> LPAREN, CHR '')'' \<mapsto> RPAREN, CHR '','' \<mapsto> COMMA]"

definition emit :: "TokenType \<Rightarrow> string \<Rightarrow> nat \<Rightarrow> error + Token list \<Rightarrow> error + Token list" where
  "emit ty v p r =
     (case r of Inl e \<Rightarrow> Inl e
      | Inr ts \<Rightarrow> Inr (\<lparr>tok_type = ty, tok_value = v, position = p\<rparr> # ts))"

function scan :: "nat \<Rightarrow> string \<Rightarrow> error + Token list" where
  "scan pos [] = Inr [\<lparr>tok_type = EOF, tok_value = [], position = pos\<rparr>]"
| "scan pos (c # cs) =
     (if is_blank c then scan (Suc pos) cs
      else if is_digit c then
        (let ds = c # takeWhile is_digit cs; r = dropWhile is_digit cs
         in if r \<noteq> [] \<and> hd r = CHR ''.''
            then (let fs = takeWhile is_digit (tl r); v = ds @ ''.'' @ fs
                  in emit FLOAT v pos (scan (pos + length v) (dropWhile is_digit (tl r))))
            else emit INTEGER ds pos (scan (pos + length ds) r))
      else if is_letter c then
        (let name = c # takeWhile is_name_char cs
         in emit (keyword name) name pos
              (scan (pos + length name) (dropWhile is_name_char cs)))
      else (case single_char c of
              Some ty \<Rightarrow> emit ty [c] pos (scan (Suc pos) cs)
            | None \<Rightarrow> Inl (LexicalError c pos)))"
  by pat_completeness auto
termination
proof (relation "measure (\<lambda>(pos, s). length s)")
  show "wf (measure (\<lambda>(pos, s). length s))" by simp
next
  fix pos :: nat and c :: char and cs :: string
  show "((Suc pos, cs), pos, c # cs) \<in> measure (\<lambda>(pos, s). length s)" by simp
next
  fix pos :: nat and c :: char and cs :: string and x xa xb xc :: string
  assume "xa = dropWhile is_digit cs" "xb = takeWhile is_digit (tl xa)"
  have "length (dropWhile is_digit (tl (dropWhile is_digit cs))) \<le> length (tl (dropWhile is_digit cs))"
    by (rule length_dropWhile_le)
  also have "\<dots> \<le> length (dropWhile is_digit cs)" by simp
  also have "\<dots> \<le> length cs" by (rule length_dropWhile_le)
  finally show "((pos + length xc, dropWhile is_digit (tl xa)), pos, c # cs)
      \<in> measure (\<lambda>(pos, s). length s)"
    using \<open>xa = dropWhile is_digit cs\<close> by simp
next
  fix pos :: nat and c :: char and cs :: string and x xa :: string
  assume "xa = dropWhile is_digit cs"
  then show "((pos + length x, xa), pos, c # cs) \<in> measure (\<lambda>(pos, s). length s)"
    by (simp add: length_dropWhile_le le_imp_less_Suc)
next
  fix pos :: nat and c :: char and cs :: string and x :: string
  show "((pos + length x, dropWhile is_name_char cs), pos, c # cs)
      \<in> measure (\<lambda>(pos, s). length s)"
    by (simp add: length_dropWhile_le le_imp_less_Suc)
next
  fix pos :: nat and c :: char and cs :: string
  show "((Suc pos, cs), pos, c # cs) \<in> measure (\<lambda>(pos, s). length s)" by simp
qed

definition get_tokens :: "string \<Rightarrow> error + Token list" where
  "get_tokens text = scan 0 text"

section \<open>The parser\<close>

text \<open>
  The attributes of \<^verbatim>\<open>Parser\<close> that change: the token list, the index of the current
  token and the current token itself, which is \<^verbatim>\<open>None\<close> past the end of the list.
\<close>

record parser =
  tokens :: "Token list"
  current_token_index :: nat
  current_token :: "Token option"

text \<open>The table \<^verbatim>\<open>self.precedence\<close>, the same in every instance.\<close>

definition precedence :: "TokenType \<rightharpoonup> int" where
  "precedence = [PLUS \<mapsto> 1, MINUS \<mapsto> 1, MULTIPLY \<mapsto> 2, DIVIDE \<mapsto> 2, POWER \<mapsto> 3]"

text \<open>
  The state \<^verbatim>\<open>__init__\<close> builds from a token list, and \<^verbatim>\<open>__init__\<close> itself: from a
  text through the lexer, from a pre-built token list, or \<^verbatim>\<open>ValueError\<close> without
  either.
\<close>

definition new_parser :: "Token list \<Rightarrow> parser" where
  "new_parser ts =
     \<lparr>tokens = ts, current_token_index = 0,
      current_token = (if ts \<noteq> [] then Some (ts ! 0) else None)\<rparr>"

definition Parser_init :: "string option \<Rightarrow> Token list option \<Rightarrow> error + parser" where
  "Parser_init text toks =
     (case text of
        Some s \<Rightarrow> (case get_tokens s of Inl e \<Rightarrow> Inl e | Inr ts \<Rightarrow> Inr (new_parser ts))
      | None \<Rightarrow> (case toks of Some ts \<Rightarrow> Inr (new_parser ts) | None \<Rightarrow> Inl ValueError))"

definition advance :: "parser \<Rightarrow> parser" where
  "advance st =
     (let i = current_token_index st + 1
      in st\<lparr>current_token_index := i,
            current_token := (if i < length (tokens st) then Some (tokens st ! i) else None)\<rparr>)"

definition get_precedence :: "TokenType \<Rightarrow> int" where
  "get_precedence token_type = (case precedence token_type of Some p \<Rightarrow> p | None \<Rightarrow> 0)"

text \<open>
  The mutually recursive methods. The first argument \<open>fl\<close> stands for Python's
  \<^verbatim>\<open>float\<close>; the second bounds the depth of calls, every call and every turn of a loop
  taking one. The two \<^verbatim>\<open>while\<close> loops are the functions \<open>binary_loop\<close> (of
  \<^verbatim>\<open>parse_binary_expression\<close>, with the local \<^verbatim>\<open>left\<close>) and \<open>arguments_loop\<close> (of
  \<^verbatim>\<open>_parse_function_call\<close>, with the local \<^verbatim>\<open>arguments\<close>).
\<close>

function (sequential) parse_expression :: "(string \<Rightarrow> 'f option) \<Rightarrow> nat \<Rightarrow> parser \<Rightarrow> ('f node \<times> parser) outcome"
  and parse_binary_expression ::
    "(string \<Rightarrow> 'f option) \<Rightarrow> nat \<Rightarrow> int \<Rightarrow> parser \<Rightarrow> ('f node \<times> parser) outcome"
  and binary_loop ::
    "(string \<Rightarrow> 'f option) \<Rightarrow> nat \<Rightarrow> int \<Rightarrow> 'f node \<Rightarrow> parser \<Rightarrow> ('f node \<times> parser) outcome"
  and parse_primary :: "(string \<Rightarrow> 'f option) \<Rightarrow> nat \<Rightarrow> parser \<Rightarrow> ('f node \<times> parser) outcome"
  and parse_function_call ::
    "(string \<Rightarrow> 'f option) \<Rightarrow> nat \<Rightarrow> Token \<Rightarrow> parser \<Rightarrow> ('f node \<times> parser) outcome"
  and arguments_loop ::
    "(string \<Rightarrow> 'f option) \<Rightarrow> nat \<Rightarrow> 'f node list \<Rightarrow> parser \<Rightarrow> ('f node list \<times> parser) outcome"
  and parse_parenthesized_expression ::
    "(string \<Rightarrow> 'f option) \<Rightarrow> nat \<Rightarrow> parser \<Rightarrow> ('f node \<times> parser) outcome"
where
  "parse_expression fl 0 st = None"
| "parse_expression fl (Suc n) st = parse_binary_expression fl n 0 st"
| "parse_binary_expression fl 0 min_precedence st = None"
| "parse_binary_expression fl (Suc n) min_precedence st =
     and_then (parse_primary fl n st) (\<lambda>(left, st1). binary_loop fl n min_precedence left st1)"
| "binary_loop fl 0 min_precedence left st = None"
| "binary_loop fl (Suc n) min_precedence left st =
     (case current_token st of
        None \<Rightarrow> Some (Inl AttributeError)
      | Some operator_token \<Rightarrow>
          (case precedence (tok_type operator_token) of
             None \<Rightarrow> Some (Inr (left, st))
           | Some operator_precedence \<Rightarrow>
               if operator_precedence \<ge> min_precedence then
                 (let st1 = advance st;
                      next_min_precedence =
                        (if tok_type operator_token = POWER then operator_precedence - 1
                         else operator_precedence + 1)
                  in and_then (parse_binary_expression fl n next_min_precedence st1)
                       (\<lambda>(right, st2).
                          binary_loop fl n min_precedence
                            (BinaryOpNode left (tok_value operator_token) right) st2))
               else Some (Inr (left, st))))"
| "parse_primary fl 0 st = None"
| "parse_primary fl (Suc n) st =
     (case current_token st of
        None \<Rightarrow> Some (Inl AttributeError)
      | Some token \<Rightarrow>
          if tok_type token \<in> {INTEGER, FLOAT} then
            (let st1 = advance st
             in if tok_type token = FLOAT
                then (case fl (tok_value token) of
                        None \<Rightarrow> Some (Inl ValueError)
                      | Some v \<Rightarrow> Some (Inr (NumberNode (PyFloat v), st1)))
                else (case python_int (tok_value token) of
                        None \<Rightarrow> Some (Inl ValueError)
                      | Some v \<Rightarrow> Some (Inr (NumberNode (PyInt v), st1))))
          else if tok_type token = IDENTIFIER then
            Some (Inr (IdentifierNode (tok_value token), advance st))
          else if tok_type token \<in> {SIN, COS, TAN, LOG} then
            parse_function_call fl n token st
          else if tok_type token = LPAREN then
            parse_parenthesized_expression fl n st
          else if tok_type token = MINUS then
            and_then (parse_primary fl n (advance st))
              (\<lambda>(operand, st1). Some (Inr (UnaryOpNode ''-'' operand, st1)))
          else if tok_type token = PLUS then
            parse_primary fl n (advance st)
          else Some (Inl (SyntaxError (Unexpected_token (position token) token))))"
| "parse_function_call fl 0 function_token st = None"
| "parse_function_call fl (Suc n) function_token st =
     (let function_name = tok_value function_token;
          st1 = advance st
      in case current_token st1 of
           None \<Rightarrow> Some (Inl AttributeError)
         | Some t1 \<Rightarrow>
             if tok_type t1 \<noteq> LPAREN then
               Some (Inl (SyntaxError (Expected_lparen (position t1))))
             else
               (let st2 = advance st1
                in case current_token st2 of
                     None \<Rightarrow> Some (Inl AttributeError)
                   | Some t2 \<Rightarrow>
                       and_then
                         (if tok_type t2 \<noteq> RPAREN then
                            and_then (parse_expression fl n st2)
                              (\<lambda>(argument, st3). arguments_loop fl n [argument] st3)
                          else Some (Inr ([], st2)))
                         (\<lambda>(arguments, st4).
                            case current_token st4 of
                              None \<Rightarrow> Some (Inl AttributeError)
                            | Some t4 \<Rightarrow>
                                if tok_type t4 \<noteq> RPAREN then
                                  Some (Inl (SyntaxError (Expected_rparen (position t4))))
                                else
                                  Some (Inr (FunctionCallNode function_name arguments,
                                             advance st4)))))"
| "arguments_loop fl 0 arguments st = None"
| "arguments_loop fl (Suc n) arguments st =
     (case current_token st of
        None \<Rightarrow> Some (Inl AttributeError)
      | Some t \<Rightarrow>
          if tok_type t = COMMA then
            and_then (parse_expression fl n (advance st))
              (\<lambda>(argument, st1). arguments_loop fl n (arguments @ [argument]) st1)
          else Some (Inr (arguments, st)))"
| "parse_parenthesized_expression fl 0 st = None"
| "parse_parenthesized_expression fl (Suc n) st =
     and_then (parse_expression fl n (advance st))
       (\<lambda>(expression, st1).
          case current_token st1 of
            None \<Rightarrow> Some (Inl AttributeError)
          | Some t \<Rightarrow>
              if tok_type t \<noteq> RPAREN then
                Some (Inl (SyntaxError (Expected_rparen (position t))))
              else Some (Inr (expression, advance st1)))"
  by pat_completeness auto
termination
  by (relation "measure (case_sum
    (case_sum (\<lambda>p. fst (snd p))
      (case_sum (\<lambda>p. fst (snd p)) (\<lambda>p. fst (snd p))))
    (case_sum (case_sum (\<lambda>p. fst (snd p)) (\<lambda>p. fst (snd p)))
      (case_sum (\<lambda>p. fst (snd p)) (\<lambda>p. fst (snd p)))))") simp_all

definition parse_program ::
  "(string \<Rightarrow> 'f option) \<Rightarrow> nat \<Rightarrow> parser \<Rightarrow> ('f node \<times> parser) outcome" where
  "parse_program fl n st =
     and_then (parse_expression fl n st)
       (\<lambda>(expression, st1). Some (Inr (ProgramNode expression, st1)))"

text \<open>
  \<^verbatim>\<open>parse\<close> returns \<^verbatim>\<open>None\<close> (here \<open>Inr None\<close>) for an empty token list, and otherwise
  the tree, unless a token other than \<open>EOF\<close> is left.
\<close>

definition parse :: "(string \<Rightarrow> 'f option) \<Rightarrow> nat \<Rightarrow> parser \<Rightarrow> 'f node option outcome" where
  "parse fl n st =
     (if tokens st = [] then Some (Inr None)
      else and_then (parse_program fl n st)
             (\<lambda>(ast, st1).
                case current_token st1 of
                  None \<Rightarrow> Some (Inl AttributeError)
                | Some t \<Rightarrow>
                    if tok_type t \<noteq> EOF then
                      Some (Inl (SyntaxError (Unexpected_token (position t) t)))
                    else Some (Inr (Some ast))))"

definition parse_text :: "(string \<Rightarrow> 'f option) \<Rightarrow> nat \<Rightarrow> string \<Rightarrow> 'f node option outcome" where
  "parse_text fl n text =
     (case Parser_init (Some text) None of
        Inl e \<Rightarrow> Some (Inl e)
      | Inr p \<Rightarrow> parse fl n p)"

text \<open>The same with a pre-built token list: \<^verbatim>\<open>Parser(tokens=ts).parse()\<close>.\<close>

definition parse_tokens ::
  "(string \<Rightarrow> 'f option) \<Rightarrow> nat \<Rightarrow> Token list \<Rightarrow> 'f node option outcome" where
  "parse_tokens fl n ts =
     (case Parser_init None (Some ts) of
        Inl e \<Rightarrow> Some (Inl e)
      | Inr p \<Rightarrow> parse fl n p)"

text \<open>The recursive equations are unfolded by hand, one call at a time.\<close>

declare parse_expression.simps(2) [simp del] parse_binary_expression.simps(2) [simp del]
  binary_loop.simps(2) [simp del] parse_primary.simps(2) [simp del]
  parse_function_call.simps(2) [simp del] arguments_loop.simps(2) [simp del]
  parse_parenthesized_expression.simps(2) [simp del]

section \<open>What a successful run has consumed\<close>

definition rest :: "parser \<Rightarrow> Token list" where
  "rest st = drop (current_token_index st) (tokens st)"

definition consistent :: "parser \<Rightarrow> bool" where
  "consistent st = (current_token st = (case rest st of [] \<Rightarrow> None | t # ts \<Rightarrow> Some t))"

definition consumed :: "parser \<Rightarrow> parser \<Rightarrow> Token list \<Rightarrow> bool" where
  "consumed st st' c = (consistent st' \<and> tokens st' = tokens st \<and> rest st = c @ rest st')"

fun leaf_count :: "'f node \<Rightarrow> nat" where
  "leaf_count (NumberNode v) = 1"
| "leaf_count (IdentifierNode s) = 1"
| "leaf_count (UnaryOpNode opr x) = leaf_count x"
| "leaf_count (BinaryOpNode l opr r) = leaf_count l + leaf_count r"
| "leaf_count (FunctionCallNode f args) = sum_list (map leaf_count args)"
| "leaf_count (ProgramNode e) = leaf_count e"

fun internal_count :: "'f node \<Rightarrow> nat" where
  "internal_count (NumberNode v) = 0"
| "internal_count (IdentifierNode s) = 0"
| "internal_count (UnaryOpNode opr x) = 1 + internal_count x"
| "internal_count (BinaryOpNode l opr r) = 1 + internal_count l + internal_count r"
| "internal_count (FunctionCallNode f args) = 1 + sum_list (map internal_count args)"
| "internal_count (ProgramNode e) = 1 + internal_count e"

definition count_type :: "TokenType set \<Rightarrow> Token list \<Rightarrow> nat" where
  "count_type S c = length (filter (\<lambda>t. tok_type t \<in> S) c)"

definition is_function :: "Token \<Rightarrow> bool" where
  "is_function t = (tok_type t \<in> {SIN, COS, TAN, LOG})"

definition starts_primary :: "Token \<Rightarrow> bool" where
  "starts_primary t =
     (tok_type t \<in> {INTEGER, FLOAT, IDENTIFIER, SIN, COS, TAN, LOG, LPAREN, MINUS, PLUS})"

fun adj_ok :: "Token list \<Rightarrow> bool" where
  "adj_ok [] = True"
| "adj_ok [t] = (\<not> is_function t \<and> tok_type t \<noteq> COMMA)"
| "adj_ok (t # u # r) =
     ((is_function t \<longrightarrow> tok_type u = LPAREN) \<and>
      (tok_type t = COMMA \<longrightarrow> tok_type u \<noteq> RPAREN) \<and> adj_ok (u # r))"

definition tokens_ok :: "Token list \<Rightarrow> bool" where
  "tokens_ok c = (EOF \<notin> tok_type ` set c \<and> adj_ok c \<and> count_type {LPAREN} c = count_type {RPAREN} c)"

definition expr_post :: "parser \<Rightarrow> 'f node \<Rightarrow> parser \<Rightarrow> bool" where
  "expr_post st nd st' =
     (\<exists>c. consumed st st' c \<and> c \<noteq> [] \<and> starts_primary (hd c) \<and> tokens_ok c \<and>
          leaf_count nd = count_type {INTEGER, FLOAT, IDENTIFIER} c \<and> internal_count nd < length c)"

definition loop_post :: "parser \<Rightarrow> 'f node \<Rightarrow> 'f node \<Rightarrow> parser \<Rightarrow> bool" where
  "loop_post st left nd st' =
     (\<exists>c. consumed st st' c \<and> tokens_ok c \<and>
          leaf_count nd = leaf_count left + count_type {INTEGER, FLOAT, IDENTIFIER} c \<and>
          internal_count nd \<le> internal_count left + length c)"

definition args_post :: "parser \<Rightarrow> 'f node list \<Rightarrow> 'f node list \<Rightarrow> parser \<Rightarrow> bool" where
  "args_post st args args' st' =
     (\<exists>c. consumed st st' c \<and> tokens_ok c \<and>
          sum_list (map leaf_count args') =
            sum_list (map leaf_count args) + count_type {INTEGER, FLOAT, IDENTIFIER} c \<and>
          sum_list (map internal_count args') \<le> sum_list (map internal_count args) + length c)"

definition sound :: "(string \<Rightarrow> 'f option) \<Rightarrow> nat \<Rightarrow> bool" where
  "sound fl n =
     ((\<forall>st nd st'. consistent st \<longrightarrow> parse_expression fl n st = Some (Inr (nd, st')) \<longrightarrow>
          expr_post st nd st') \<and>
      (\<forall>mp st nd st'. consistent st \<longrightarrow>
          parse_binary_expression fl n mp st = Some (Inr (nd, st')) \<longrightarrow> expr_post st nd st') \<and>
      (\<forall>mp left st nd st'. consistent st \<longrightarrow>
          binary_loop fl n mp left st = Some (Inr (nd, st')) \<longrightarrow> loop_post st left nd st') \<and>
      (\<forall>st nd st'. consistent st \<longrightarrow> parse_primary fl n st = Some (Inr (nd, st')) \<longrightarrow>
          expr_post st nd st') \<and>
      (\<forall>ft st nd st'. consistent st \<longrightarrow> current_token st = Some ft \<longrightarrow> is_function ft \<longrightarrow>
          parse_function_call fl n ft st = Some (Inr (nd, st')) \<longrightarrow> expr_post st nd st') \<and>
      (\<forall>args st args' st'. consistent st \<longrightarrow>
          arguments_loop fl n args st = Some (Inr (args', st')) \<longrightarrow> args_post st args args' st') \<and>
      (\<forall>t st nd st'. consistent st \<longrightarrow> current_token st = Some t \<longrightarrow> tok_type t = LPAREN \<longrightarrow>
          parse_parenthesized_expression fl n st = Some (Inr (nd, st')) \<longrightarrow> expr_post st nd st'))"

text \<open>A run that has finished within depth \<open>n\<close> gives the same result within depth \<open>n + 1\<close>.\<close>

definition stable :: "(string \<Rightarrow> 'f option) \<Rightarrow> nat \<Rightarrow> bool" where
  "stable fl n =
     ((\<forall>st r. parse_expression fl n st = Some r \<longrightarrow> parse_expression fl (Suc n) st = Some r) \<and>
      (\<forall>mp st r. parse_binary_expression fl n mp st = Some r \<longrightarrow>
          parse_binary_expression fl (Suc n) mp st = Some r) \<and>
      (\<forall>mp left st r. binary_loop fl n mp left st = Some r \<longrightarrow>
          binary_loop fl (Suc n) mp left st = Some r) \<and>
      (\<forall>st r. parse_primary fl n st = Some r \<longrightarrow> parse_primary fl (Suc n) st = Some r) \<and>
      (\<forall>ft st r. parse_function_call fl n ft st = Some r \<longrightarrow>
          parse_function_call fl (Suc n) ft st = Some r) \<and>
      (\<forall>args st r. arguments_loop fl n args st = Some r \<longrightarrow>
          arguments_loop fl (Suc n) args st = Some r) \<and>
      (\<forall>st r. parse_parenthesized_expression fl n st = Some r \<longrightarrow>
          parse_parenthesized_expression fl (Suc n) st = Some r))"

text \<open>
  Depth that suffices: four calls for every token still to be read, and a few more.
\<close>

definition finishes :: "(string \<Rightarrow> 'f option) \<Rightarrow> nat \<Rightarrow> bool" where
  "finishes fl n =
     ((\<forall>st. consistent st \<longrightarrow> 4 * length (rest st) + 5 \<le> n \<longrightarrow>
          parse_expression fl n st \<noteq> None) \<and>
      (\<forall>mp st. consistent st \<longrightarrow> 4 * length (rest st) + 4 \<le> n \<longrightarrow>
          parse_binary_expression fl n mp st \<noteq> None) \<and>
      (\<forall>mp left st. consistent st \<longrightarrow> 4 * length (rest st) + 1 \<le> n \<longrightarrow>
          binary_loop fl n mp left st \<noteq> None) \<and>
      (\<forall>st. consistent st \<longrightarrow> 4 * length (rest st) + 3 \<le> n \<longrightarrow>
          parse_primary fl n st \<noteq> None) \<and>
      (\<forall>ft st. consistent st \<longrightarrow> rest st \<noteq> [] \<longrightarrow> 4 * length (rest st) + 2 \<le> n \<longrightarrow>
          parse_function_call fl n ft st \<noteq> None) \<and>
      (\<forall>args st. consistent st \<longrightarrow> 4 * length (rest st) + 2 \<le> n \<longrightarrow>
          arguments_loop fl n args st \<noteq> None) \<and>
      (\<forall>st. consistent st \<longrightarrow> rest st \<noteq> [] \<longrightarrow> 4 * length (rest st) + 2 \<le> n \<longrightarrow>
          parse_parenthesized_expression fl n st \<noteq> None))"

text \<open>
  A run that starts before an \<open>EOF\<close> token never reads \<^verbatim>\<open>current_token.type\<close> of
  \<^verbatim>\<open>None\<close>.
\<close>

definition has_eof :: "parser \<Rightarrow> bool" where
  "has_eof st = (EOF \<in> tok_type ` set (rest st))"

definition safe :: "(string \<Rightarrow> 'f option) \<Rightarrow> nat \<Rightarrow> bool" where
  "safe fl n =
     ((\<forall>st. consistent st \<longrightarrow> has_eof st \<longrightarrow>
          parse_expression fl n st \<noteq> Some (Inl AttributeError)) \<and>
      (\<forall>mp st. consistent st \<longrightarrow> has_eof st \<longrightarrow>
          parse_binary_expression fl n mp st \<noteq> Some (Inl AttributeError)) \<and>
      (\<forall>mp left st. consistent st \<longrightarrow> has_eof st \<longrightarrow>
          binary_loop fl n mp left st \<noteq> Some (Inl AttributeError)) \<and>
      (\<forall>st. consistent st \<longrightarrow> has_eof st \<longrightarrow>
          parse_primary fl n st \<noteq> Some (Inl AttributeError)) \<and>
      (\<forall>ft t st. consistent st \<longrightarrow> has_eof st \<longrightarrow> current_token st = Some t \<longrightarrow>
          tok_type t \<noteq> EOF \<longrightarrow>
          parse_function_call fl n ft st \<noteq> Some (Inl AttributeError)) \<and>
      (\<forall>args st. consistent st \<longrightarrow> has_eof st \<longrightarrow>
          arguments_loop fl n args st \<noteq> Some (Inl AttributeError)) \<and>
      (\<forall>t st. consistent st \<longrightarrow> has_eof st \<longrightarrow> current_token st = Some t \<longrightarrow>
          tok_type t \<noteq> EOF \<longrightarrow>
          parse_parenthesized_expression fl n st \<noteq> Some (Inl AttributeError)))"

text \<open>
  The errors a run can raise: a \<^verbatim>\<open>SyntaxError\<close>, the \<^verbatim>\<open>AttributeError\<close> of a missing
  token, and the \<^verbatim>\<open>ValueError\<close> of \<^verbatim>\<open>int\<close> or \<^verbatim>\<open>float\<close>, the last only when the value
  of a number token still to be read is not a numeric literal.
\<close>

definition numeric_ok :: "(string \<Rightarrow> 'f option) \<Rightarrow> Token list \<Rightarrow> bool" where
  "numeric_ok fl ts =
     (\<forall>t \<in> set ts. (tok_type t = INTEGER \<longrightarrow> python_int (tok_value t) \<noteq> None) \<and>
                     (tok_type t = FLOAT \<longrightarrow> fl (tok_value t) \<noteq> None))"

definition expected_error :: "(string \<Rightarrow> 'f option) \<Rightarrow> parser \<Rightarrow> error \<Rightarrow> bool" where
  "expected_error fl st e =
     ((\<exists>m. e = SyntaxError m) \<or> e = AttributeError \<or>
      (e = ValueError \<and> \<not> numeric_ok fl (rest st)))"

definition clean :: "(string \<Rightarrow> 'f option) \<Rightarrow> nat \<Rightarrow> bool" where
  "clean fl n =
     ((\<forall>st e. consistent st \<longrightarrow> parse_expression fl n st = Some (Inl e) \<longrightarrow>
          expected_error fl st e) \<and>
      (\<forall>mp st e. consistent st \<longrightarrow> parse_binary_expression fl n mp st = Some (Inl e) \<longrightarrow>
          expected_error fl st e) \<and>
      (\<forall>mp left st e. consistent st \<longrightarrow> binary_loop fl n mp left st = Some (Inl e) \<longrightarrow>
          expected_error fl st e) \<and>
      (\<forall>st e. consistent st \<longrightarrow> parse_primary fl n st = Some (Inl e) \<longrightarrow>
          expected_error fl st e) \<and>
      (\<forall>ft st e. consistent st \<longrightarrow> parse_function_call fl n ft st = Some (Inl e) \<longrightarrow>
          expected_error fl st e) \<and>
      (\<forall>args st e. consistent st \<longrightarrow> arguments_loop fl n args st = Some (Inl e) \<longrightarrow>
          expected_error fl st e) \<and>
      (\<forall>st e. consistent st \<longrightarrow> parse_parenthesized_expression fl n st = Some (Inl e) \<longrightarrow>
          expected_error fl st e))"

text \<open>
  The shape the tokenizer promises: the last token, and only the last, is \<open>EOF\<close>.
\<close>

definition eof_terminated :: "Token list \<Rightarrow> bool" where
  "eof_terminated ts =
     (ts \<noteq> [] \<and> tok_type (last ts) = EOF \<and> EOF \<notin> tok_type ` set (butlast ts))"

text \<open>The node of an integer literal, for short.\<close>

abbreviation Number :: "int \<Rightarrow> 'f node" where
  "Number i \<equiv> NumberNode (PyInt i)"

text \<open>
  The arguments of a call, one after the other: \<open>argument_runs fl n st xs\<close> says that
  from the state \<open>st\<close> the expressions of \<open>xs\<close> are parsed in this order (each entry is
  the node and the state after it), with a \<open>COMMA\<close> after each but the last.
\<close>

fun argument_runs ::
  "(string \<Rightarrow> 'f option) \<Rightarrow> nat \<Rightarrow> parser \<Rightarrow> ('f node \<times> parser) list \<Rightarrow> bool" where
  "argument_runs fl n st [] = False"
| "argument_runs fl n st [(a, s)] = (parse_expression fl n st = Some (Inr (a, s)))"
| "argument_runs fl n st ((a, s) # x # xs) =
     (parse_expression fl n st = Some (Inr (a, s)) \<and>
      map_option tok_type (current_token s) = Some COMMA \<and>
      argument_runs fl n (advance s) (x # xs))"

section \<open>Basic facts\<close>

lemma and_then_simps [simp]:
  "and_then None f = None"
  "and_then (Some (Inl e)) f = Some (Inl e)"
  "and_then (Some (Inr x)) f = f x"
  by (simp_all add: and_then_def)

lemma and_then_eq_Inr:
  "and_then m f = Some (Inr y) \<longleftrightarrow> (\<exists>x. m = Some (Inr x) \<and> f x = Some (Inr y))"
  by (auto simp: and_then_def split: option.splits sum.splits)

lemma and_then_eq_None:
  "and_then m f = None \<longleftrightarrow> (m = None \<or> (\<exists>x. m = Some (Inr x) \<and> f x = None))"
  by (auto simp: and_then_def split: option.splits sum.splits)

lemma and_then_eq_Inl:
  "and_then m f = Some (Inl e) \<longleftrightarrow>
     (m = Some (Inl e) \<or> (\<exists>x. m = Some (Inr x) \<and> f x = Some (Inl e)))"
  by (auto simp: and_then_def split: option.splits sum.splits)

subsection \<open>The cursor\<close>

lemma rest_new_parser [simp]: "rest (new_parser ts) = ts"
  by (simp add: rest_def new_parser_def)

lemma consistent_new_parser [simp]: "consistent (new_parser ts)"
  by (cases ts) (simp_all add: consistent_def rest_def new_parser_def)

lemma tokens_advance [simp]: "tokens (advance st) = tokens st"
  by (simp add: advance_def Let_def)

lemma rest_advance [simp]: "rest (advance st) = tl (rest st)"
  by (simp add: advance_def Let_def rest_def drop_Suc tl_drop)

lemma consistent_advance [simp]: "consistent (advance st)"
proof -
  have "drop (Suc i) xs = (if Suc i < length xs then xs ! Suc i # drop (Suc (Suc i)) xs else [])"
    for i and xs :: "Token list"
    by (simp add: Cons_nth_drop_Suc)
  then show ?thesis
    by (simp add: consistent_def rest_def advance_def Let_def)
qed

lemma rest_current:
  "consistent st \<Longrightarrow> current_token st = Some t \<Longrightarrow> rest st = t # rest (advance st)"
  by (cases "rest st") (simp_all add: consistent_def)

lemma rest_none: "consistent st \<Longrightarrow> current_token st = None \<Longrightarrow> rest st = []"
  by (cases "rest st") (simp_all add: consistent_def)

lemma current_hd: "consistent st \<Longrightarrow> rest st = t # ts \<Longrightarrow> current_token st = Some t"
  by (simp add: consistent_def)

lemma consumed_refl: "consistent st \<Longrightarrow> consumed st st []"
  by (simp add: consumed_def)

lemma consumed_advance:
  "consistent st \<Longrightarrow> current_token st = Some t \<Longrightarrow> consumed st (advance st) [t]"
  using rest_current [of st t] by (simp add: consumed_def)

lemma consumed_trans:
  "consumed st st1 c1 \<Longrightarrow> consumed st1 st2 c2 \<Longrightarrow> consumed st st2 (c1 @ c2)"
  by (simp add: consumed_def)

lemma consumed_consistent: "consumed st st' c \<Longrightarrow> consistent st'"
  by (simp add: consumed_def)

subsection \<open>Token lists\<close>

lemma count_type_simps [simp]:
  "count_type S [] = 0"
  "count_type S (t # c) = (if tok_type t \<in> S then 1 else 0) + count_type S c"
  "count_type S (a @ b) = count_type S a + count_type S b"
  by (simp_all add: count_type_def)

lemma adj_ok_Cons:
  "c \<noteq> [] \<Longrightarrow> adj_ok (t # c) =
     ((is_function t \<longrightarrow> tok_type (hd c) = LPAREN) \<and>
      (tok_type t = COMMA \<longrightarrow> tok_type (hd c) \<noteq> RPAREN) \<and> adj_ok c)"
  by (cases c) simp_all

lemma adj_ok_append: "adj_ok a \<Longrightarrow> adj_ok b \<Longrightarrow> adj_ok (a @ b)"
proof (induction a rule: adj_ok.induct)
  case 1
  then show ?case by simp
next
  case (2 t)
  then show ?case by (cases b) simp_all
next
  case (3 t u r)
  then show ?case by simp
qed

subsection \<open>More depth does not change a result\<close>

lemma and_then_mono:
  assumes "and_then m f = Some r"
    and "\<And>x. m = Some x \<Longrightarrow> m' = Some x"
    and "\<And>x y. f x = Some y \<Longrightarrow> f' x = Some y"
  shows "and_then m' f' = Some r"
  using assms by (auto simp: and_then_def split: option.splits sum.splits)

lemma stable_0: "stable fl 0"
  by (simp add: stable_def)

lemma stable_Suc:
  assumes "stable fl n"
  shows "stable fl (Suc n)"
proof -
  have pe: "parse_expression fl n st = Some r \<Longrightarrow> parse_expression fl (Suc n) st = Some r" for st r
    using assms by (simp add: stable_def)
  have pbe: "parse_binary_expression fl n mp st = Some r \<Longrightarrow>
      parse_binary_expression fl (Suc n) mp st = Some r" for mp st r
    using assms by (simp add: stable_def)
  have bl: "binary_loop fl n mp left st = Some r \<Longrightarrow>
      binary_loop fl (Suc n) mp left st = Some r" for mp left st r
    using assms by (simp add: stable_def)
  have pp: "parse_primary fl n st = Some r \<Longrightarrow> parse_primary fl (Suc n) st = Some r" for st r
    using assms by (simp add: stable_def)
  have pfc: "parse_function_call fl n ft st = Some r \<Longrightarrow>
      parse_function_call fl (Suc n) ft st = Some r" for ft st r
    using assms by (simp add: stable_def)
  have al: "arguments_loop fl n args st = Some r \<Longrightarrow>
      arguments_loop fl (Suc n) args st = Some r" for args st r
    using assms by (simp add: stable_def)
  have ppe: "parse_parenthesized_expression fl n st = Some r \<Longrightarrow>
      parse_parenthesized_expression fl (Suc n) st = Some r" for st r
    using assms by (simp add: stable_def)
  have 1: "parse_expression fl (Suc n) st = Some r \<Longrightarrow>
      parse_expression fl (Suc (Suc n)) st = Some r" for st r
    using pbe by (simp add: parse_expression.simps(2))
  have 2: "parse_binary_expression fl (Suc n) mp st = Some r \<Longrightarrow>
      parse_binary_expression fl (Suc (Suc n)) mp st = Some r" for mp st r
    by (subst parse_binary_expression.simps(2), subst (asm) parse_binary_expression.simps(2),
        erule and_then_mono) (auto intro: pp bl)
  have 3: "binary_loop fl (Suc n) mp left st = Some r \<Longrightarrow>
      binary_loop fl (Suc (Suc n)) mp left st = Some r" for mp left st r
    by (subst binary_loop.simps(2), subst (asm) binary_loop.simps(2))
      (auto simp: Let_def split: option.splits if_splits elim!: and_then_mono intro: pbe bl)
  have 4: "parse_primary fl (Suc n) st = Some r \<Longrightarrow>
      parse_primary fl (Suc (Suc n)) st = Some r" for st r
    by (subst parse_primary.simps(2), subst (asm) parse_primary.simps(2))
      (auto simp: Let_def split: option.splits if_splits elim!: and_then_mono intro: pp pfc ppe)
  have 5: "parse_function_call fl (Suc n) ft st = Some r \<Longrightarrow>
      parse_function_call fl (Suc (Suc n)) ft st = Some r" for ft st r
    by (subst parse_function_call.simps(2), subst (asm) parse_function_call.simps(2))
      (auto simp: Let_def split: option.splits if_splits elim!: and_then_mono intro: pe al)
  have 6: "arguments_loop fl (Suc n) args st = Some r \<Longrightarrow>
      arguments_loop fl (Suc (Suc n)) args st = Some r" for args st r
    by (subst arguments_loop.simps(2), subst (asm) arguments_loop.simps(2))
      (auto simp: Let_def split: option.splits if_splits elim!: and_then_mono intro: pe al)
  have 7: "parse_parenthesized_expression fl (Suc n) st = Some r \<Longrightarrow>
      parse_parenthesized_expression fl (Suc (Suc n)) st = Some r" for st r
    by (subst parse_parenthesized_expression.simps(2),
        subst (asm) parse_parenthesized_expression.simps(2), erule and_then_mono) (auto intro: pe)
  show ?thesis
    unfolding stable_def using 1 2 3 4 5 6 7 by blast
qed

lemma stable_all: "stable fl n"
  by (induction n) (simp_all add: stable_0 stable_Suc)

lemma parse_expression_mono:
  assumes "parse_expression fl n st = Some r" and "n \<le> m"
  shows "parse_expression fl m st = Some r"
proof -
  have "parse_expression fl (n + k) st = Some r" for k
  proof (induction k)
    case 0
    show ?case using assms(1) by simp
  next
    case (Suc k)
    then show ?case using stable_all [of fl "n + k"] by (simp add: stable_def)
  qed
  from this [of "m - n"] assms(2) show ?thesis by simp
qed

lemma parse_mono:
  assumes "parse fl n st = Some r" and "n \<le> m"
  shows "parse fl m st = Some r"
proof (cases "tokens st = []")
  case True
  then show ?thesis using assms(1) by (simp add: parse_def)
next
  case False
  have "and_then (parse_expression fl m st) f = Some y"
    if "and_then (parse_expression fl n st) f = Some y" for f :: "'a node \<times> parser \<Rightarrow> ('a node \<times> parser) outcome" and y
    using that by (rule and_then_mono) (auto intro: parse_expression_mono assms(2))
  then have "parse_program fl m st = Some y" if "parse_program fl n st = Some y" for y
    using that by (simp add: parse_program_def)
  with assms(1) False show ?thesis
    unfolding parse_def by (auto elim!: and_then_mono)
qed

lemma parse_text_mono:
  "parse_text fl n text = Some r \<Longrightarrow> n \<le> m \<Longrightarrow> parse_text fl m text = Some r"
  by (auto simp: parse_text_def split: sum.splits intro: parse_mono)

lemma parse_tokens_mono:
  "parse_tokens fl n ts = Some r \<Longrightarrow> n \<le> m \<Longrightarrow> parse_tokens fl m ts = Some r"
  by (auto simp: parse_tokens_def split: sum.splits intro: parse_mono)

lemmas run_simps =
  parse_text_def parse_tokens_def Parser_init_def parse_def parse_program_def new_parser_def
  advance_def precedence_def eval_nat_numeral
  parse_expression.simps(2) parse_binary_expression.simps(2) binary_loop.simps(2)
  parse_primary.simps(2) parse_function_call.simps(2) arguments_loop.simps(2)
  parse_parenthesized_expression.simps(2)

lemma python_int_digit:
  "python_int ''1'' = Some 1" "python_int ''2'' = Some 2" "python_int ''3'' = Some 3"
  "python_int ''4'' = Some 4" "python_int ''8'' = Some 8"
  by code_simp+

lemma tokens_power_multiply:
  "get_tokens ''2 ^ 3 * 4'' = Inr
     [\<lparr>tok_type = INTEGER, tok_value = ''2'', position = 0\<rparr>,
      \<lparr>tok_type = POWER, tok_value = ''^'', position = 2\<rparr>,
      \<lparr>tok_type = INTEGER, tok_value = ''3'', position = 4\<rparr>,
      \<lparr>tok_type = MULTIPLY, tok_value = ''*'', position = 6\<rparr>,
      \<lparr>tok_type = INTEGER, tok_value = ''4'', position = 8\<rparr>,
      \<lparr>tok_type = EOF, tok_value = [], position = 9\<rparr>]"
  by code_simp

subsection \<open>Composing what the parts of an expression consumed\<close>

lemma precedence_Some:
  "precedence ty = Some p \<Longrightarrow> ty \<in> {PLUS, MINUS, MULTIPLY, DIVIDE, POWER}"
  by (auto simp: precedence_def split: if_splits)

lemma tokens_ok_Nil [simp]: "tokens_ok []"
  by (simp add: tokens_ok_def)

lemma tokens_ok_append: "tokens_ok a \<Longrightarrow> tokens_ok b \<Longrightarrow> tokens_ok (a @ b)"
  by (auto simp: tokens_ok_def adj_ok_append)

lemma tokens_ok_single:
  "tok_type t \<in> {INTEGER, FLOAT, IDENTIFIER, PLUS, MINUS, MULTIPLY, DIVIDE, POWER} \<Longrightarrow>
   tokens_ok [t]"
  by (auto simp: tokens_ok_def is_function_def)

lemma expr_post_consumed: "expr_post st nd st' \<Longrightarrow> consistent st'"
  by (auto simp: expr_post_def consumed_def)

lemma expr_post_shorter: "expr_post st nd st' \<Longrightarrow> length (rest st') < length (rest st)"
  by (auto simp: expr_post_def consumed_def)

lemma loop_post_consumed: "loop_post st l nd st' \<Longrightarrow> consistent st'"
  by (auto simp: loop_post_def consumed_def)

lemma args_post_consumed: "args_post st a b st' \<Longrightarrow> consistent st'"
  by (auto simp: args_post_def consumed_def)

lemma leaf_post:
  assumes "consistent st" "current_token st = Some t"
    and "tok_type t \<in> {INTEGER, FLOAT, IDENTIFIER}"
    and "leaf_count nd = 1" "internal_count nd = 0"
  shows "expr_post st nd (advance st)"
  unfolding expr_post_def
proof (intro exI conjI)
  show "consumed st (advance st) [t]" using assms by (simp add: consumed_advance)
  show "tokens_ok [t]" using assms(3) by (auto intro: tokens_ok_single)
  show "starts_primary (hd [t])" using assms(3) by (auto simp: starts_primary_def)
  show "leaf_count nd = count_type {INTEGER, FLOAT, IDENTIFIER} [t]" using assms by auto
qed (use assms in simp_all)

lemma prefix_post:
  assumes "consistent st" "current_token st = Some t"
    and "tok_type t \<in> {MINUS, PLUS}"
    and "expr_post (advance st) x st'"
    and "leaf_count nd = leaf_count x" "internal_count nd \<le> 1 + internal_count x"
  shows "expr_post st nd st'"
proof -
  from assms(4) obtain c where c: "consumed (advance st) st' c" "c \<noteq> []" "tokens_ok c"
    "leaf_count x = count_type {INTEGER, FLOAT, IDENTIFIER} c" "internal_count x < length c"
    by (auto simp: expr_post_def)
  have 1: "consumed st st' ([t] @ c)"
    using consumed_trans [OF consumed_advance [OF assms(1,2)] c(1)] .
  have 2: "tokens_ok ([t] @ c)"
    using assms(3) c(3) by (intro tokens_ok_append tokens_ok_single) auto
  show ?thesis
    unfolding expr_post_def
    apply (rule exI [of _ "[t] @ c"])
    using 1 2 c assms(3,5,6) by (auto simp: starts_primary_def)
qed

lemma expr_loop_post:
  assumes "expr_post st left st1" "loop_post st1 left nd st'"
  shows "expr_post st nd st'"
proof -
  from assms(1) obtain c1 where c1: "consumed st st1 c1" "c1 \<noteq> []" "starts_primary (hd c1)"
    "tokens_ok c1" "leaf_count left = count_type {INTEGER, FLOAT, IDENTIFIER} c1"
    "internal_count left < length c1"
    by (auto simp: expr_post_def)
  from assms(2) obtain c2 where c2: "consumed st1 st' c2" "tokens_ok c2"
    "leaf_count nd = leaf_count left + count_type {INTEGER, FLOAT, IDENTIFIER} c2"
    "internal_count nd \<le> internal_count left + length c2"
    by (auto simp: loop_post_def)
  show ?thesis
    unfolding expr_post_def
    apply (rule exI [of _ "c1 @ c2"])
    using consumed_trans [OF c1(1) c2(1)] tokens_ok_append [OF c1(4) c2(2)] c1 c2 by auto
qed

lemma loop_step_post:
  assumes "consistent st" "current_token st = Some t" "precedence (tok_type t) = Some p"
    and "expr_post (advance st) right st2"
    and "loop_post st2 (BinaryOpNode left v right) nd st'"
  shows "loop_post st left nd st'"
proof -
  from assms(4) obtain c1 where c1: "consumed (advance st) st2 c1" "tokens_ok c1"
    "leaf_count right = count_type {INTEGER, FLOAT, IDENTIFIER} c1"
    "internal_count right < length c1"
    by (auto simp: expr_post_def)
  from assms(5) obtain c2 where c2: "consumed st2 st' c2" "tokens_ok c2"
    "leaf_count nd = leaf_count (BinaryOpNode left v right) +
       count_type {INTEGER, FLOAT, IDENTIFIER} c2"
    "internal_count nd \<le> internal_count (BinaryOpNode left v right) + length c2"
    by (auto simp: loop_post_def)
  have ty: "tok_type t \<in> {PLUS, MINUS, MULTIPLY, DIVIDE, POWER}"
    using assms(3) by (rule precedence_Some)
  have 1: "consumed st st' ([t] @ c1 @ c2)"
    using consumed_trans [OF consumed_advance [OF assms(1,2)] consumed_trans [OF c1(1) c2(1)]] .
  have 2: "tokens_ok ([t] @ c1 @ c2)"
    using ty c1(2) c2(2) by (intro tokens_ok_append tokens_ok_single) auto
  show ?thesis
    unfolding loop_post_def
    apply (rule exI [of _ "[t] @ c1 @ c2"])
    using 1 2 c1 c2 ty by auto
qed

lemma loop_done_post: "consistent st \<Longrightarrow> loop_post st left left st"
  unfolding loop_post_def by (rule exI [of _ "[]"]) (simp add: consumed_refl)

lemma args_done_post: "consistent st \<Longrightarrow> args_post st args args st"
  unfolding args_post_def by (rule exI [of _ "[]"]) (simp add: consumed_refl)

lemma args_extend:
  assumes "expr_post s a s1" "args_post s1 (acc @ [a]) args s'"
  shows "\<exists>c. consumed s s' c \<and> c \<noteq> [] \<and> starts_primary (hd c) \<and> tokens_ok c \<and>
     sum_list (map leaf_count args) =
       sum_list (map leaf_count acc) + count_type {INTEGER, FLOAT, IDENTIFIER} c \<and>
     sum_list (map internal_count args) \<le> sum_list (map internal_count acc) + length c"
proof -
  from assms(1) obtain c1 where c1: "consumed s s1 c1" "c1 \<noteq> []" "starts_primary (hd c1)"
    "tokens_ok c1" "leaf_count a = count_type {INTEGER, FLOAT, IDENTIFIER} c1"
    "internal_count a < length c1"
    by (auto simp: expr_post_def)
  from assms(2) obtain c2 where c2: "consumed s1 s' c2" "tokens_ok c2"
    "sum_list (map leaf_count args) =
       sum_list (map leaf_count (acc @ [a])) + count_type {INTEGER, FLOAT, IDENTIFIER} c2"
    "sum_list (map internal_count args) \<le> sum_list (map internal_count (acc @ [a])) + length c2"
    by (auto simp: args_post_def)
  show ?thesis
    apply (rule exI [of _ "c1 @ c2"])
    using consumed_trans [OF c1(1) c2(1)] tokens_ok_append [OF c1(4) c2(2)] c1 c2 by auto
qed

lemma args_step_post:
  assumes "consistent st" "current_token st = Some t" "tok_type t = COMMA"
    and "expr_post (advance st) a st1" "args_post st1 (acc @ [a]) args st'"
  shows "args_post st acc args st'"
proof -
  from args_extend [OF assms(4,5)] obtain c where c: "consumed (advance st) st' c" "c \<noteq> []"
    "starts_primary (hd c)" "tokens_ok c"
    "sum_list (map leaf_count args) =
       sum_list (map leaf_count acc) + count_type {INTEGER, FLOAT, IDENTIFIER} c"
    "sum_list (map internal_count args) \<le> sum_list (map internal_count acc) + length c"
    by blast
  have 1: "consumed st st' ([t] @ c)"
    using consumed_trans [OF consumed_advance [OF assms(1,2)] c(1)] .
  have 2: "tokens_ok (t # c)"
    using c(2,3,4) assms(3)
    by (auto simp: tokens_ok_def adj_ok_Cons is_function_def starts_primary_def)
  show ?thesis
    unfolding args_post_def
    apply (rule exI [of _ "[t] @ c"])
    using 1 2 c assms(3) by auto
qed

lemma call_post:
  assumes "consistent st" "current_token st = Some ft" "is_function ft"
    and "current_token (advance st) = Some t1" "tok_type t1 = LPAREN"
    and "args_post (advance (advance st)) [] args st4"
    and "current_token st4 = Some t4" "tok_type t4 = RPAREN"
  shows "expr_post st (FunctionCallNode name args) (advance st4)"
proof -
  from assms(6) obtain c where c: "consumed (advance (advance st)) st4 c" "tokens_ok c"
    "sum_list (map leaf_count args) = count_type {INTEGER, FLOAT, IDENTIFIER} c"
    "sum_list (map internal_count args) \<le> length c"
    by (auto simp: args_post_def)
  have st4: "consistent st4" using c(1) by (simp add: consumed_def)
  have 1: "consumed st (advance st4) ([ft] @ [t1] @ c @ [t4])"
    using consumed_trans [OF consumed_advance [OF assms(1,2)]
        consumed_trans [OF consumed_advance [OF consistent_advance assms(4)]
          consumed_trans [OF c(1) consumed_advance [OF st4 assms(7)]]]] .
  have "adj_ok [ft, t1]" "adj_ok [t4]"
    using assms(3,5,8) by (auto simp: is_function_def)
  then have "adj_ok ([ft, t1] @ c @ [t4])"
    using c(2) by (intro adj_ok_append) (simp_all add: tokens_ok_def)
  then have 3: "tokens_ok (ft # t1 # c @ [t4])"
    using c(2) assms(3,5,8) by (auto simp: tokens_ok_def is_function_def)
  show ?thesis
    unfolding expr_post_def
    apply (rule exI [of _ "[ft] @ [t1] @ c @ [t4]"])
    using 1 3 c assms(3,5,8) by (auto simp: starts_primary_def is_function_def)
qed

lemma paren_post:
  assumes "consistent st" "current_token st = Some t" "tok_type t = LPAREN"
    and "expr_post (advance st) e st1"
    and "current_token st1 = Some t'" "tok_type t' = RPAREN"
  shows "expr_post st e (advance st1)"
proof -
  from assms(4) obtain c where c: "consumed (advance st) st1 c" "c \<noteq> []" "tokens_ok c"
    "leaf_count e = count_type {INTEGER, FLOAT, IDENTIFIER} c" "internal_count e < length c"
    by (auto simp: expr_post_def)
  have st1: "consistent st1" using c(1) by (simp add: consumed_def)
  have 1: "consumed st (advance st1) ([t] @ c @ [t'])"
    using consumed_trans [OF consumed_advance [OF assms(1,2)]
        consumed_trans [OF c(1) consumed_advance [OF st1 assms(5)]]] .
  have 2: "tokens_ok (t # c @ [t'])"
    using c(2,3) assms(3,6)
    by (auto simp: tokens_ok_def adj_ok_Cons adj_ok_append is_function_def)
  show ?thesis
    unfolding expr_post_def
    apply (rule exI [of _ "[t] @ c @ [t']"])
    using 1 2 c assms(3,6) by (auto simp: starts_primary_def)
qed

subsection \<open>What a successful run has consumed\<close>

lemma sound_0: "sound fl 0"
  by (simp add: sound_def)

lemma sound_Suc:
  assumes "sound fl n"
  shows "sound fl (Suc n)"
proof -
  have pe: "consistent st \<Longrightarrow> parse_expression fl n st = Some (Inr (nd, st')) \<Longrightarrow>
      expr_post st nd st'" for st nd st'
    using assms by (simp add: sound_def)
  have pbe: "consistent st \<Longrightarrow> parse_binary_expression fl n mp st = Some (Inr (nd, st')) \<Longrightarrow>
      expr_post st nd st'" for mp st nd st'
    using assms by (simp add: sound_def)
  have bl: "consistent st \<Longrightarrow> binary_loop fl n mp left st = Some (Inr (nd, st')) \<Longrightarrow>
      loop_post st left nd st'" for mp left st nd st'
    using assms by (simp add: sound_def)
  have pp: "consistent st \<Longrightarrow> parse_primary fl n st = Some (Inr (nd, st')) \<Longrightarrow>
      expr_post st nd st'" for st nd st'
    using assms by (simp add: sound_def)
  have pfc: "consistent st \<Longrightarrow> current_token st = Some ft \<Longrightarrow> is_function ft \<Longrightarrow>
      parse_function_call fl n ft st = Some (Inr (nd, st')) \<Longrightarrow> expr_post st nd st'"
    for ft st nd st'
    using assms by (simp add: sound_def)
  have al: "consistent st \<Longrightarrow> arguments_loop fl n args st = Some (Inr (args', st')) \<Longrightarrow>
      args_post st args args' st'" for args st args' st'
    using assms by (simp add: sound_def)
  have ppe: "consistent st \<Longrightarrow> current_token st = Some t \<Longrightarrow> tok_type t = LPAREN \<Longrightarrow>
      parse_parenthesized_expression fl n st = Some (Inr (nd, st')) \<Longrightarrow> expr_post st nd st'"
    for t st nd st'
    using assms by (simp add: sound_def)

  have 1: "expr_post st nd st'"
    if "consistent st" "parse_expression fl (Suc n) st = Some (Inr (nd, st'))" for st nd st'
    using that pbe by (simp add: parse_expression.simps(2))

  have 2: "expr_post st nd st'"
    if "consistent st" "parse_binary_expression fl (Suc n) mp st = Some (Inr (nd, st'))"
    for mp st nd st'
  proof -
    from that(2) obtain left st1 where
      a: "parse_primary fl n st = Some (Inr (left, st1))"
      and b: "binary_loop fl n mp left st1 = Some (Inr (nd, st'))"
      by (auto simp: parse_binary_expression.simps(2) and_then_eq_Inr)
    have l: "expr_post st left st1" using pp [OF that(1) a] .
    show ?thesis using l bl [OF expr_post_consumed [OF l] b] by (rule expr_loop_post)
  qed

  have 3: "loop_post st left nd st'"
    if c: "consistent st" and r: "binary_loop fl (Suc n) mp left st = Some (Inr (nd, st'))"
    for mp left st nd st'
  proof (cases "current_token st")
    case None
    with r show ?thesis by (simp add: binary_loop.simps(2))
  next
    case (Some t)
    show ?thesis
    proof (cases "precedence (tok_type t)")
      case None
      with r Some c show ?thesis by (auto simp: binary_loop.simps(2) loop_done_post)
    next
      case p: (Some p)
      show ?thesis
      proof (cases "mp \<le> p")
        case False
        with r Some p c show ?thesis by (auto simp: binary_loop.simps(2) loop_done_post)
      next
        case True
        with r Some p obtain nmp right st2 where
          a: "parse_binary_expression fl n nmp (advance st) = Some (Inr (right, st2))"
          and b: "binary_loop fl n mp (BinaryOpNode left (tok_value t) right) st2 =
            Some (Inr (nd, st'))"
          by (auto simp: binary_loop.simps(2) Let_def and_then_eq_Inr)
        have e: "expr_post (advance st) right st2" using pbe [OF consistent_advance a] .
        show ?thesis
          using c Some p e bl [OF expr_post_consumed [OF e] b] by (rule loop_step_post)
      qed
    qed
  qed

  have 4: "expr_post st nd st'"
    if c: "consistent st" and r: "parse_primary fl (Suc n) st = Some (Inr (nd, st'))"
    for st nd st'
  proof (cases "current_token st")
    case None
    with r show ?thesis by (simp add: parse_primary.simps(2))
  next
    case (Some t)
    consider (num) "tok_type t \<in> {INTEGER, FLOAT}" | (ident) "tok_type t = IDENTIFIER"
      | (call) "tok_type t \<in> {SIN, COS, TAN, LOG}" | (paren) "tok_type t = LPAREN"
      | (minus) "tok_type t = MINUS" | (plus) "tok_type t = PLUS"
      | (other) "tok_type t \<in> {MULTIPLY, DIVIDE, POWER, RPAREN, COMMA, EOF}"
      by (cases "tok_type t") auto
    then show ?thesis
    proof cases
      case num
      with r Some have "st' = advance st" "leaf_count nd = 1" "internal_count nd = 0"
        by (auto simp: parse_primary.simps(2) Let_def split: option.splits if_splits)
      with c Some num show ?thesis by (auto intro!: leaf_post)
    next
      case ident
      with r Some have "st' = advance st" "leaf_count nd = 1" "internal_count nd = 0"
        by (auto simp: parse_primary.simps(2))
      with c Some ident show ?thesis by (auto intro!: leaf_post)
    next
      case call
      with r Some have "parse_function_call fl n t st = Some (Inr (nd, st'))"
        by (auto simp: parse_primary.simps(2))
      with c Some call show ?thesis by (auto intro!: pfc simp: is_function_def)
    next
      case paren
      with r Some have "parse_parenthesized_expression fl n st = Some (Inr (nd, st'))"
        by (auto simp: parse_primary.simps(2))
      with c Some paren show ?thesis by (auto intro: ppe)
    next
      case minus
      with r Some obtain operand where
        a: "parse_primary fl n (advance st) = Some (Inr (operand, st'))"
        and b: "nd = UnaryOpNode ''-'' operand"
        by (auto simp: parse_primary.simps(2) and_then_eq_Inr)
      show ?thesis
        using c Some _ pp [OF consistent_advance a]
        by (rule prefix_post) (use minus b in auto)
    next
      case plus
      with r Some have a: "parse_primary fl n (advance st) = Some (Inr (nd, st'))"
        by (auto simp: parse_primary.simps(2))
      show ?thesis
        using c Some _ pp [OF consistent_advance a]
        by (rule prefix_post) (use plus in auto)
    next
      case other
      with r Some show ?thesis by (auto simp: parse_primary.simps(2))
    qed
  qed

  have 5: "expr_post st nd st'"
    if c: "consistent st" and ft: "current_token st = Some ft" "is_function ft"
      and r: "parse_function_call fl (Suc n) ft st = Some (Inr (nd, st'))"
    for ft st nd st'
  proof -
    let ?st1 = "advance st" and ?st2 = "advance (advance st)"
    from r obtain t1 where t1: "current_token ?st1 = Some t1" "tok_type t1 = LPAREN"
      by (auto simp: parse_function_call.simps(2) Let_def split: option.splits if_splits)
    from r t1 obtain t2 where t2: "current_token ?st2 = Some t2"
      by (auto simp: parse_function_call.simps(2) Let_def split: option.splits if_splits)
    from r t1 t2 obtain args st4 t4 where
      a: "(if tok_type t2 \<noteq> RPAREN
           then and_then (parse_expression fl n ?st2)
                  (\<lambda>(argument, st3). arguments_loop fl n [argument] st3)
           else Some (Inr ([], ?st2))) = Some (Inr (args, st4))"
      and t4: "current_token st4 = Some t4" "tok_type t4 = RPAREN"
      and res: "nd = FunctionCallNode (tok_value ft) args" "st' = advance st4"
      by (auto simp: parse_function_call.simps(2) Let_def and_then_eq_Inr
          split: option.splits if_splits)
    have "args_post ?st2 [] args st4"
    proof (cases "tok_type t2 = RPAREN")
      case True
      with a show ?thesis by (auto intro: args_done_post)
    next
      case False
      with a obtain x st3 where
        x: "parse_expression fl n ?st2 = Some (Inr (x, st3))"
        and y: "arguments_loop fl n [x] st3 = Some (Inr (args, st4))"
        by (auto simp: and_then_eq_Inr)
      have e: "expr_post ?st2 x st3" using pe [OF consistent_advance x] .
      have "args_post st3 ([] @ [x]) args st4"
        using al [OF expr_post_consumed [OF e] y] by simp
      from args_extend [OF e this] show ?thesis
        unfolding args_post_def by auto
    qed
    then show ?thesis
      unfolding res using c ft t1 t4 by (intro call_post)
  qed

  have 6: "args_post st args args' st'"
    if c: "consistent st" and r: "arguments_loop fl (Suc n) args st = Some (Inr (args', st'))"
    for args st args' st'
  proof (cases "current_token st")
    case None
    with r show ?thesis by (simp add: arguments_loop.simps(2))
  next
    case (Some t)
    show ?thesis
    proof (cases "tok_type t = COMMA")
      case False
      with r Some c show ?thesis by (auto simp: arguments_loop.simps(2) args_done_post)
    next
      case True
      with r Some obtain x st1 where
        x: "parse_expression fl n (advance st) = Some (Inr (x, st1))"
        and y: "arguments_loop fl n (args @ [x]) st1 = Some (Inr (args', st'))"
        by (auto simp: arguments_loop.simps(2) and_then_eq_Inr)
      have e: "expr_post (advance st) x st1" using pe [OF consistent_advance x] .
      show ?thesis
        using c Some True e al [OF expr_post_consumed [OF e] y] by (rule args_step_post)
    qed
  qed

  have 7: "expr_post st nd st'"
    if c: "consistent st" and t: "current_token st = Some t" "tok_type t = LPAREN"
      and r: "parse_parenthesized_expression fl (Suc n) st = Some (Inr (nd, st'))"
    for t st nd st'
  proof -
    from r obtain st1 t' where
      x: "parse_expression fl n (advance st) = Some (Inr (nd, st1))"
      and t': "current_token st1 = Some t'" "tok_type t' = RPAREN" and s: "st' = advance st1"
      by (auto simp: parse_parenthesized_expression.simps(2) and_then_eq_Inr
          split: option.splits if_splits)
    show ?thesis
      unfolding s using c t pe [OF consistent_advance x] t' by (rule paren_post)
  qed

  show ?thesis
    unfolding sound_def
    apply (intro conjI allI impI)
    subgoal by (rule 1)
    subgoal by (rule 2)
    subgoal by (rule 3)
    subgoal by (rule 4)
    subgoal by (rule 5)
    subgoal by (rule 6)
    subgoal by (rule 7)
    done
qed

lemma sound_all: "sound fl n"
  by (induction n) (simp_all add: sound_0 sound_Suc)

lemma parse_expression_sound:
  "consistent st \<Longrightarrow> parse_expression fl n st = Some (Inr (nd, st')) \<Longrightarrow> expr_post st nd st'"
  using sound_all [of fl n] by (simp add: sound_def)

lemma parse_binary_expression_sound:
  "consistent st \<Longrightarrow> parse_binary_expression fl n mp st = Some (Inr (nd, st')) \<Longrightarrow>
   expr_post st nd st'"
  using sound_all [of fl n] by (simp add: sound_def)

lemma parse_primary_sound:
  "consistent st \<Longrightarrow> parse_primary fl n st = Some (Inr (nd, st')) \<Longrightarrow> expr_post st nd st'"
  using sound_all [of fl n] by (simp add: sound_def)

lemma binary_loop_sound:
  "consistent st \<Longrightarrow> binary_loop fl n mp left st = Some (Inr (nd, st')) \<Longrightarrow>
   loop_post st left nd st'"
  using sound_all [of fl n] by (simp add: sound_def)

lemma arguments_loop_sound:
  "consistent st \<Longrightarrow> arguments_loop fl n args st = Some (Inr (args', st')) \<Longrightarrow>
   args_post st args args' st'"
  using sound_all [of fl n] by (simp add: sound_def)

subsection \<open>Enough depth gives a result\<close>

lemma loop_post_shorter: "loop_post st l nd st' \<Longrightarrow> length (rest st') \<le> length (rest st)"
  by (auto simp: loop_post_def consumed_def)

lemma args_post_shorter: "args_post st a b st' \<Longrightarrow> length (rest st') \<le> length (rest st)"
  by (auto simp: args_post_def consumed_def)

lemma rest_nonempty: "consistent st \<Longrightarrow> current_token st = Some t \<Longrightarrow> rest st \<noteq> []"
  by (cases "rest st") (simp_all add: consistent_def)

lemma advance_shorter: "rest st \<noteq> [] \<Longrightarrow> length (rest (advance st)) < length (rest st)"
  by (cases "rest st") simp_all

lemma and_then_not_None:
  "m \<noteq> None \<Longrightarrow> (\<And>x. m = Some (Inr x) \<Longrightarrow> f x \<noteq> None) \<Longrightarrow> and_then m f \<noteq> None"
  by (auto simp: and_then_eq_None)

lemma finishes_0: "finishes fl 0"
  by (simp add: finishes_def)

lemma finishes_Suc:
  assumes "finishes fl n"
  shows "finishes fl (Suc n)"
proof -
  have pe: "consistent st \<Longrightarrow> 4 * length (rest st) + 5 \<le> n \<Longrightarrow>
      parse_expression fl n st \<noteq> None" for st
    using assms by (simp add: finishes_def)
  have pbe: "consistent st \<Longrightarrow> 4 * length (rest st) + 4 \<le> n \<Longrightarrow>
      parse_binary_expression fl n mp st \<noteq> None" for mp st
    using assms by (simp add: finishes_def)
  have bl: "consistent st \<Longrightarrow> 4 * length (rest st) + 1 \<le> n \<Longrightarrow>
      binary_loop fl n mp left st \<noteq> None" for mp left st
    using assms by (simp add: finishes_def)
  have pp: "consistent st \<Longrightarrow> 4 * length (rest st) + 3 \<le> n \<Longrightarrow>
      parse_primary fl n st \<noteq> None" for st
    using assms by (simp add: finishes_def)
  have pfc: "consistent st \<Longrightarrow> rest st \<noteq> [] \<Longrightarrow> 4 * length (rest st) + 2 \<le> n \<Longrightarrow>
      parse_function_call fl n ft st \<noteq> None" for ft st
    using assms by (simp add: finishes_def)
  have al: "consistent st \<Longrightarrow> 4 * length (rest st) + 2 \<le> n \<Longrightarrow>
      arguments_loop fl n args st \<noteq> None" for args st
    using assms by (simp add: finishes_def)
  have ppe: "consistent st \<Longrightarrow> rest st \<noteq> [] \<Longrightarrow> 4 * length (rest st) + 2 \<le> n \<Longrightarrow>
      parse_parenthesized_expression fl n st \<noteq> None" for st
    using assms by (simp add: finishes_def)

  have 1: "parse_expression fl (Suc n) st \<noteq> None"
    if "consistent st" "4 * length (rest st) + 5 \<le> Suc n" for st
    using that pbe [of st 0] by (simp add: parse_expression.simps(2))

  have 2: "parse_binary_expression fl (Suc n) mp st \<noteq> None"
    if c: "consistent st" and k: "4 * length (rest st) + 4 \<le> Suc n" for mp st
    unfolding parse_binary_expression.simps(2)
  proof (rule and_then_not_None)
    show "parse_primary fl n st \<noteq> None" using c k by (intro pp) (simp_all del: rest_advance)
  next
    fix x assume x: "parse_primary fl n st = Some (Inr x)"
    obtain left st1 where [simp]: "x = (left, st1)" by (cases x)
    have e: "expr_post st left st1" using parse_primary_sound [OF c] x by simp
    have "binary_loop fl n mp left st1 \<noteq> None"
      using expr_post_consumed [OF e] expr_post_shorter [OF e] k by (intro bl) (simp_all del: rest_advance)
    then show "(case x of (left, st1) \<Rightarrow> binary_loop fl n mp left st1) \<noteq> None" by simp
  qed

  have 3: "binary_loop fl (Suc n) mp left st \<noteq> None"
    if c: "consistent st" and k: "4 * length (rest st) + 1 \<le> Suc n" for mp left st
  proof (cases "current_token st")
    case None
    then show ?thesis by (simp add: binary_loop.simps(2))
  next
    case (Some t)
    note len = advance_shorter [OF rest_nonempty [OF c Some]]
    have "and_then (parse_binary_expression fl n nmp (advance st))
        (\<lambda>(right, st2). binary_loop fl n mp (BinaryOpNode left v right) st2) \<noteq> None" for nmp v
    proof (rule and_then_not_None)
      show "parse_binary_expression fl n nmp (advance st) \<noteq> None"
        using k len by (intro pbe) (simp_all del: rest_advance)
    next
      fix x assume x: "parse_binary_expression fl n nmp (advance st) = Some (Inr x)"
      obtain right st2 where [simp]: "x = (right, st2)" by (cases x)
      have e: "expr_post (advance st) right st2"
        using parse_binary_expression_sound [OF consistent_advance] x by simp
      have "binary_loop fl n mp (BinaryOpNode left v right) st2 \<noteq> None"
        using expr_post_consumed [OF e] expr_post_shorter [OF e] k len by (intro bl) (simp_all del: rest_advance)
      then show "(case x of (right, st2) \<Rightarrow>
          binary_loop fl n mp (BinaryOpNode left v right) st2) \<noteq> None" by simp
    qed
    with Some show ?thesis
      by (simp add: binary_loop.simps(2) Let_def split: option.splits)
  qed

  have 4: "parse_primary fl (Suc n) st \<noteq> None"
    if c: "consistent st" and k: "4 * length (rest st) + 3 \<le> Suc n" for st
  proof (cases "current_token st")
    case None
    then show ?thesis by (simp add: parse_primary.simps(2))
  next
    case (Some t)
    note len = advance_shorter [OF rest_nonempty [OF c Some]]
    have ne: "rest st \<noteq> []" using c Some by (rule rest_nonempty)
    have a: "parse_function_call fl n t st \<noteq> None" using c ne k by (intro pfc) (simp_all del: rest_advance)
    have b: "parse_parenthesized_expression fl n st \<noteq> None"
      using c ne k by (intro ppe) (simp_all del: rest_advance)
    have d: "parse_primary fl n (advance st) \<noteq> None" using k len by (intro pp) (simp_all del: rest_advance)
    then have "and_then (parse_primary fl n (advance st)) f \<noteq> None"
      if "\<And>x. f x \<noteq> None" for f :: "'a node \<times> parser \<Rightarrow> ('a node \<times> parser) outcome"
      using that by (intro and_then_not_None)
    then have e: "and_then (parse_primary fl n (advance st))
        (\<lambda>(operand, st1). Some (Inr (UnaryOpNode ''-'' operand, st1))) \<noteq> None"
      by (auto simp: split_def)
    show ?thesis
      using Some a b d e
      by (simp add: parse_primary.simps(2) Let_def split: option.splits)
  qed

  have 6: "arguments_loop fl (Suc n) args st \<noteq> None"
    if c: "consistent st" and k: "4 * length (rest st) + 2 \<le> Suc n" for args st
  proof (cases "current_token st")
    case None
    then show ?thesis by (simp add: arguments_loop.simps(2))
  next
    case (Some t)
    note len = advance_shorter [OF rest_nonempty [OF c Some]]
    have "and_then (parse_expression fl n (advance st))
        (\<lambda>(argument, st1). arguments_loop fl n (args @ [argument]) st1) \<noteq> None"
    proof (rule and_then_not_None)
      show "parse_expression fl n (advance st) \<noteq> None" using k len by (intro pe) (simp_all del: rest_advance)
    next
      fix x assume x: "parse_expression fl n (advance st) = Some (Inr x)"
      obtain a st1 where [simp]: "x = (a, st1)" by (cases x)
      have e: "expr_post (advance st) a st1"
        using parse_expression_sound [OF consistent_advance] x by simp
      have "arguments_loop fl n (args @ [a]) st1 \<noteq> None"
        using expr_post_consumed [OF e] expr_post_shorter [OF e] k len by (intro al) (simp_all del: rest_advance)
      then show "(case x of (argument, st1) \<Rightarrow>
          arguments_loop fl n (args @ [argument]) st1) \<noteq> None" by simp
    qed
    with Some show ?thesis by (simp add: arguments_loop.simps(2))
  qed

  have 7: "parse_parenthesized_expression fl (Suc n) st \<noteq> None"
    if c: "consistent st" and ne: "rest st \<noteq> []" and k: "4 * length (rest st) + 2 \<le> Suc n"
    for st
    unfolding parse_parenthesized_expression.simps(2)
  proof (rule and_then_not_None)
    have "length (rest (advance st)) < length (rest st)" using ne by (rule advance_shorter)
    then show "parse_expression fl n (advance st) \<noteq> None" using k by (intro pe) (simp_all del: rest_advance)
  next
    fix x :: "'a node \<times> parser"
    show "(case x of (expression, st1) \<Rightarrow>
        case current_token st1 of None \<Rightarrow> Some (Inl AttributeError)
        | Some t \<Rightarrow> if tok_type t \<noteq> RPAREN
            then Some (Inl (SyntaxError (Expected_rparen (position t))))
            else Some (Inr (expression, advance st1))) \<noteq> None"
      by (auto split: prod.splits option.splits)
  qed

  have 5: "parse_function_call fl (Suc n) ft st \<noteq> None"
    if c: "consistent st" and ne: "rest st \<noteq> []" and k: "4 * length (rest st) + 2 \<le> Suc n"
    for ft st
  proof -
    let ?st1 = "advance st" and ?st2 = "advance (advance st)"
    have l1: "length (rest ?st1) < length (rest st)" using ne by (rule advance_shorter)
    have closing: "(case current_token st4 of None \<Rightarrow> Some (Inl AttributeError)
        | Some t4 \<Rightarrow> if tok_type t4 \<noteq> RPAREN
            then Some (Inl (SyntaxError (Expected_rparen (position t4))))
            else Some (Inr (FunctionCallNode (tok_value ft) arguments, advance st4))) \<noteq> None"
      for st4 and arguments :: "'a node list"
      by (auto split: option.splits)
    have args: "and_then (parse_expression fl n ?st2)
        (\<lambda>(argument, st3). arguments_loop fl n [argument] st3) \<noteq> None"
      if t1: "current_token ?st1 = Some t1" for t1
    proof (rule and_then_not_None)
      note l2 = advance_shorter [OF rest_nonempty [OF consistent_advance t1]]
      show "parse_expression fl n ?st2 \<noteq> None" using k l1 l2 by (intro pe) (simp_all del: rest_advance)
      fix x assume x: "parse_expression fl n ?st2 = Some (Inr x)"
      obtain a st3 where [simp]: "x = (a, st3)" by (cases x)
      have e: "expr_post ?st2 a st3"
        using parse_expression_sound [OF consistent_advance] x by simp
      have "arguments_loop fl n [a] st3 \<noteq> None"
        using expr_post_consumed [OF e] expr_post_shorter [OF e] k l1 l2 by (intro al) (simp_all del: rest_advance)
      then show "(case x of (argument, st3) \<Rightarrow> arguments_loop fl n [argument] st3) \<noteq> None"
        by simp
    qed
    show ?thesis
    proof (cases "current_token ?st1")
      case None
      then show ?thesis by (simp add: parse_function_call.simps(2) Let_def)
    next
      case t1: (Some t1)
      show ?thesis
      proof (cases "current_token ?st2")
        case None
        with t1 show ?thesis by (simp add: parse_function_call.simps(2) Let_def)
      next
        case t2: (Some t2)
        have "and_then
            (if tok_type t2 \<noteq> RPAREN
             then and_then (parse_expression fl n ?st2)
                    (\<lambda>(argument, st3). arguments_loop fl n [argument] st3)
             else Some (Inr ([], ?st2)))
            (\<lambda>(arguments, st4).
               case current_token st4 of
                 None \<Rightarrow> Some (Inl AttributeError)
               | Some t4 \<Rightarrow>
                   if tok_type t4 \<noteq> RPAREN
                   then Some (Inl (SyntaxError (Expected_rparen (position t4))))
                   else Some (Inr (FunctionCallNode (tok_value ft) arguments, advance st4)))
            \<noteq> None"
        proof (rule and_then_not_None)
          show "(if tok_type t2 \<noteq> RPAREN
             then and_then (parse_expression fl n ?st2)
                    (\<lambda>(argument, st3). arguments_loop fl n [argument] st3)
             else Some (Inr ([], ?st2))) \<noteq> None"
            using args [OF t1] by simp
        next
          fix x :: "'a node list \<times> parser"
          show "(case x of (arguments, st4) \<Rightarrow>
               case current_token st4 of
                 None \<Rightarrow> Some (Inl AttributeError)
               | Some t4 \<Rightarrow>
                   if tok_type t4 \<noteq> RPAREN
                   then Some (Inl (SyntaxError (Expected_rparen (position t4))))
                   else Some (Inr (FunctionCallNode (tok_value ft) arguments, advance st4)))
            \<noteq> None"
            using closing by (cases x) simp
        qed
        with t1 t2 show ?thesis by (simp add: parse_function_call.simps(2) Let_def)
      qed
    qed
  qed

  show ?thesis
    unfolding finishes_def
    apply (intro conjI allI impI)
    subgoal by (rule 1)
    subgoal by (rule 2)
    subgoal by (rule 3)
    subgoal by (rule 4)
    subgoal by (rule 5)
    subgoal by (rule 6)
    subgoal by (rule 7)
    done
qed

lemma finishes_all: "finishes fl n"
  by (induction n) (simp_all add: finishes_0 finishes_Suc)

subsection \<open>No read of a missing token before \<open>EOF\<close>\<close>

lemma has_eof_advance:
  "consistent st \<Longrightarrow> has_eof st \<Longrightarrow> current_token st = Some t \<Longrightarrow> tok_type t \<noteq> EOF \<Longrightarrow>
   has_eof (advance st)"
  by (cases "rest st") (auto simp: has_eof_def consistent_def)

lemma has_eof_current: "consistent st \<Longrightarrow> has_eof st \<Longrightarrow> \<exists>t. current_token st = Some t"
  by (cases "rest st") (auto simp: has_eof_def consistent_def)

lemma consumed_has_eof:
  "consumed st st' c \<Longrightarrow> tokens_ok c \<Longrightarrow> has_eof st \<Longrightarrow> has_eof st'"
  by (auto simp: consumed_def tokens_ok_def has_eof_def)

lemma expr_post_has_eof: "expr_post st nd st' \<Longrightarrow> has_eof st \<Longrightarrow> has_eof st'"
  by (auto simp: expr_post_def intro: consumed_has_eof)

lemma loop_post_has_eof: "loop_post st l nd st' \<Longrightarrow> has_eof st \<Longrightarrow> has_eof st'"
  by (auto simp: loop_post_def intro: consumed_has_eof)

lemma args_post_has_eof: "args_post st a b st' \<Longrightarrow> has_eof st \<Longrightarrow> has_eof st'"
  by (auto simp: args_post_def intro: consumed_has_eof)

lemma and_then_not_Inl:
  "m \<noteq> Some (Inl e) \<Longrightarrow> (\<And>x. m = Some (Inr x) \<Longrightarrow> f x \<noteq> Some (Inl e)) \<Longrightarrow>
   and_then m f \<noteq> Some (Inl e)"
  by (auto simp: and_then_eq_Inl)

lemma closing_safe:
  assumes "consistent st" "has_eof st"
  shows "(case current_token st of
            None \<Rightarrow> Some (Inl AttributeError)
          | Some t \<Rightarrow> if tok_type t \<noteq> RPAREN then Some (Inl (SyntaxError (Expected_rparen (position t))))
                      else Some (Inr (f st))) \<noteq> Some (Inl AttributeError)"
  using has_eof_current [OF assms] by (auto split: if_splits)

lemma safe_0: "safe fl 0"
  by (simp add: safe_def)

lemma safe_Suc:
  assumes "safe fl n"
  shows "safe fl (Suc n)"
proof -
  have pe: "consistent st \<Longrightarrow> has_eof st \<Longrightarrow>
      parse_expression fl n st \<noteq> Some (Inl AttributeError)" for st
    using assms by (simp add: safe_def)
  have pbe: "consistent st \<Longrightarrow> has_eof st \<Longrightarrow>
      parse_binary_expression fl n mp st \<noteq> Some (Inl AttributeError)" for mp st
    using assms by (simp add: safe_def)
  have bl: "consistent st \<Longrightarrow> has_eof st \<Longrightarrow>
      binary_loop fl n mp left st \<noteq> Some (Inl AttributeError)" for mp left st
    using assms by (simp add: safe_def)
  have pp: "consistent st \<Longrightarrow> has_eof st \<Longrightarrow>
      parse_primary fl n st \<noteq> Some (Inl AttributeError)" for st
    using assms by (simp add: safe_def)
  have pfc: "consistent st \<Longrightarrow> has_eof st \<Longrightarrow> current_token st = Some t \<Longrightarrow>
      tok_type t \<noteq> EOF \<Longrightarrow> parse_function_call fl n ft st \<noteq> Some (Inl AttributeError)"
    for ft t st
    using assms unfolding safe_def by meson
  have al: "consistent st \<Longrightarrow> has_eof st \<Longrightarrow>
      arguments_loop fl n args st \<noteq> Some (Inl AttributeError)" for args st
    using assms by (simp add: safe_def)
  have ppe: "consistent st \<Longrightarrow> has_eof st \<Longrightarrow> current_token st = Some t \<Longrightarrow>
      tok_type t \<noteq> EOF \<Longrightarrow> parse_parenthesized_expression fl n st \<noteq> Some (Inl AttributeError)"
    for t st
    using assms unfolding safe_def by meson

  have 1: "parse_expression fl (Suc n) st \<noteq> Some (Inl AttributeError)"
    if "consistent st" "has_eof st" for st
    using that pbe [of st 0] by (simp add: parse_expression.simps(2))

  have 2: "parse_binary_expression fl (Suc n) mp st \<noteq> Some (Inl AttributeError)"
    if c: "consistent st" and h: "has_eof st" for mp st
    unfolding parse_binary_expression.simps(2)
  proof (rule and_then_not_Inl)
    show "parse_primary fl n st \<noteq> Some (Inl AttributeError)" using c h by (rule pp)
  next
    fix x assume x: "parse_primary fl n st = Some (Inr x)"
    obtain left st1 where [simp]: "x = (left, st1)" by (cases x)
    have e: "expr_post st left st1" using parse_primary_sound [OF c] x by simp
    have "binary_loop fl n mp left st1 \<noteq> Some (Inl AttributeError)"
      using expr_post_consumed [OF e] expr_post_has_eof [OF e h] by (rule bl)
    then show "(case x of (left, st1) \<Rightarrow> binary_loop fl n mp left st1) \<noteq>
        Some (Inl AttributeError)" by simp
  qed

  have 3: "binary_loop fl (Suc n) mp left st \<noteq> Some (Inl AttributeError)"
    if c: "consistent st" and h: "has_eof st" for mp left st
  proof -
    from has_eof_current [OF c h] obtain t where t: "current_token st = Some t" by blast
    show ?thesis
    proof (cases "precedence (tok_type t)")
      case None
      with t show ?thesis by (simp add: binary_loop.simps(2))
    next
      case (Some p)
      then have "tok_type t \<noteq> EOF" by (auto dest: precedence_Some)
      then have h1: "has_eof (advance st)" using c h t by (intro has_eof_advance)
      have "and_then (parse_binary_expression fl n nmp (advance st))
          (\<lambda>(right, st2). binary_loop fl n mp (BinaryOpNode left v right) st2) \<noteq>
          Some (Inl AttributeError)" for nmp v
      proof (rule and_then_not_Inl)
        show "parse_binary_expression fl n nmp (advance st) \<noteq> Some (Inl AttributeError)"
          using consistent_advance h1 by (rule pbe)
      next
        fix x assume x: "parse_binary_expression fl n nmp (advance st) = Some (Inr x)"
        obtain right st2 where [simp]: "x = (right, st2)" by (cases x)
        have e: "expr_post (advance st) right st2"
          using parse_binary_expression_sound [OF consistent_advance] x by simp
        have "binary_loop fl n mp (BinaryOpNode left v right) st2 \<noteq> Some (Inl AttributeError)"
          using expr_post_consumed [OF e] expr_post_has_eof [OF e h1] by (rule bl)
        then show "(case x of (right, st2) \<Rightarrow>
            binary_loop fl n mp (BinaryOpNode left v right) st2) \<noteq> Some (Inl AttributeError)"
          by simp
      qed
      with t Some show ?thesis by (simp add: binary_loop.simps(2) Let_def)
    qed
  qed

  have 4: "parse_primary fl (Suc n) st \<noteq> Some (Inl AttributeError)"
    if c: "consistent st" and h: "has_eof st" for st
  proof -
    from has_eof_current [OF c h] obtain t where t: "current_token st = Some t" by blast
    have a: "parse_function_call fl n t st \<noteq> Some (Inl AttributeError)"
      if "tok_type t \<noteq> EOF"
      using c h t that by (rule pfc)
    have b: "parse_parenthesized_expression fl n st \<noteq> Some (Inl AttributeError)"
      if "tok_type t \<noteq> EOF"
      using c h t that by (rule ppe)
    have d: "parse_primary fl n (advance st) \<noteq> Some (Inl AttributeError)"
      if "tok_type t \<noteq> EOF"
      using consistent_advance has_eof_advance [OF c h t that] by (rule pp)
    have e: "and_then (parse_primary fl n (advance st))
        (\<lambda>(operand, st1). Some (Inr (UnaryOpNode ''-'' operand, st1))) \<noteq>
        Some (Inl AttributeError)" if "tok_type t \<noteq> EOF"
      using d [OF that] by (intro and_then_not_Inl) (auto simp: split_def)
    show ?thesis
      using t a b d e
      by (auto simp: parse_primary.simps(2) Let_def split: option.splits)
  qed

  have 6: "arguments_loop fl (Suc n) args st \<noteq> Some (Inl AttributeError)"
    if c: "consistent st" and h: "has_eof st" for args st
  proof -
    from has_eof_current [OF c h] obtain t where t: "current_token st = Some t" by blast
    show ?thesis
    proof (cases "tok_type t = COMMA")
      case False
      with t show ?thesis by (simp add: arguments_loop.simps(2))
    next
      case True
      then have h1: "has_eof (advance st)" using c h t by (intro has_eof_advance) auto
      have "and_then (parse_expression fl n (advance st))
          (\<lambda>(argument, st1). arguments_loop fl n (args @ [argument]) st1) \<noteq>
          Some (Inl AttributeError)"
      proof (rule and_then_not_Inl)
        show "parse_expression fl n (advance st) \<noteq> Some (Inl AttributeError)"
          using consistent_advance h1 by (rule pe)
      next
        fix x assume x: "parse_expression fl n (advance st) = Some (Inr x)"
        obtain a st1 where [simp]: "x = (a, st1)" by (cases x)
        have e: "expr_post (advance st) a st1"
          using parse_expression_sound [OF consistent_advance] x by simp
        have "arguments_loop fl n (args @ [a]) st1 \<noteq> Some (Inl AttributeError)"
          using expr_post_consumed [OF e] expr_post_has_eof [OF e h1] by (rule al)
        then show "(case x of (argument, st1) \<Rightarrow>
            arguments_loop fl n (args @ [argument]) st1) \<noteq> Some (Inl AttributeError)"
          by simp
      qed
      with t True show ?thesis by (simp add: arguments_loop.simps(2))
    qed
  qed

  have 7: "parse_parenthesized_expression fl (Suc n) st \<noteq> Some (Inl AttributeError)"
    if c: "consistent st" and h: "has_eof st" and t: "current_token st = Some t"
      "tok_type t \<noteq> EOF" for t st
    unfolding parse_parenthesized_expression.simps(2)
  proof (rule and_then_not_Inl)
    note h1 = has_eof_advance [OF c h t]
    show "parse_expression fl n (advance st) \<noteq> Some (Inl AttributeError)"
      using consistent_advance h1 by (rule pe)
    fix x assume x: "parse_expression fl n (advance st) = Some (Inr x)"
    obtain e st1 where [simp]: "x = (e, st1)" by (cases x)
    have p: "expr_post (advance st) e st1"
      using parse_expression_sound [OF consistent_advance] x by simp
    show "(case x of (expression, st1) \<Rightarrow>
        case current_token st1 of None \<Rightarrow> Some (Inl AttributeError)
        | Some t \<Rightarrow> if tok_type t \<noteq> RPAREN
            then Some (Inl (SyntaxError (Expected_rparen (position t))))
            else Some (Inr (expression, advance st1))) \<noteq> Some (Inl AttributeError)"
      using has_eof_current [OF expr_post_consumed [OF p] expr_post_has_eof [OF p h1]]
      by (auto split: if_splits)
  qed

  have 5: "parse_function_call fl (Suc n) ft st \<noteq> Some (Inl AttributeError)"
    if c: "consistent st" and h: "has_eof st" and t: "current_token st = Some t"
      "tok_type t \<noteq> EOF" for ft t st
  proof -
    let ?st1 = "advance st" and ?st2 = "advance (advance st)"
    note h1 = has_eof_advance [OF c h t]
    from has_eof_current [OF consistent_advance h1] obtain t1 where
      t1: "current_token ?st1 = Some t1" by blast
    show ?thesis
    proof (cases "tok_type t1 = LPAREN")
      case False
      with t1 show ?thesis by (simp add: parse_function_call.simps(2) Let_def)
    next
      case True
      then have h2: "has_eof ?st2"
        using has_eof_advance [OF consistent_advance h1 t1] by simp
      from has_eof_current [OF consistent_advance h2] obtain t2 where
        t2: "current_token ?st2 = Some t2" by blast
      let ?first = "if tok_type t2 \<noteq> RPAREN
             then and_then (parse_expression fl n ?st2)
                    (\<lambda>(argument, st3). arguments_loop fl n [argument] st3)
             else Some (Inr ([], ?st2))"
      have "and_then ?first
            (\<lambda>(arguments, st4).
               case current_token st4 of
                 None \<Rightarrow> Some (Inl AttributeError)
               | Some t4 \<Rightarrow>
                   if tok_type t4 \<noteq> RPAREN
                   then Some (Inl (SyntaxError (Expected_rparen (position t4))))
                   else Some (Inr (FunctionCallNode (tok_value ft) arguments, advance st4)))
            \<noteq> Some (Inl AttributeError)"
      proof (rule and_then_not_Inl)
        have "and_then (parse_expression fl n ?st2)
            (\<lambda>(argument, st3). arguments_loop fl n [argument] st3) \<noteq> Some (Inl AttributeError)"
        proof (rule and_then_not_Inl)
          show "parse_expression fl n ?st2 \<noteq> Some (Inl AttributeError)"
            using consistent_advance h2 by (rule pe)
        next
          fix x assume x: "parse_expression fl n ?st2 = Some (Inr x)"
          obtain a st3 where [simp]: "x = (a, st3)" by (cases x)
          have e: "expr_post ?st2 a st3"
            using parse_expression_sound [OF consistent_advance] x by simp
          have "arguments_loop fl n [a] st3 \<noteq> Some (Inl AttributeError)"
            using expr_post_consumed [OF e] expr_post_has_eof [OF e h2] by (rule al)
          then show "(case x of (argument, st3) \<Rightarrow> arguments_loop fl n [argument] st3) \<noteq>
              Some (Inl AttributeError)" by simp
        qed
        then show "?first \<noteq> Some (Inl AttributeError)" by simp
      next
        fix x assume x: "?first = Some (Inr x)"
        obtain args st4 where [simp]: "x = (args, st4)" by (cases x)
        have "consistent st4 \<and> has_eof st4"
        proof (cases "tok_type t2 = RPAREN")
          case True
          with x h2 show ?thesis by auto
        next
          case False
          with x obtain a st3 where
            a: "parse_expression fl n ?st2 = Some (Inr (a, st3))"
            and b: "arguments_loop fl n [a] st3 = Some (Inr (args, st4))"
            by (auto simp: and_then_eq_Inr)
          have e: "expr_post ?st2 a st3" using parse_expression_sound [OF consistent_advance a] .
          have g: "args_post st3 [a] args st4"
            using arguments_loop_sound [OF expr_post_consumed [OF e] b] .
          show ?thesis
            using args_post_consumed [OF g] args_post_has_eof [OF g expr_post_has_eof [OF e h2]]
            by simp
        qed
        then show "(case x of (arguments, st4) \<Rightarrow>
               case current_token st4 of
                 None \<Rightarrow> Some (Inl AttributeError)
               | Some t4 \<Rightarrow>
                   if tok_type t4 \<noteq> RPAREN
                   then Some (Inl (SyntaxError (Expected_rparen (position t4))))
                   else Some (Inr (FunctionCallNode (tok_value ft) arguments, advance st4)))
            \<noteq> Some (Inl AttributeError)"
          using has_eof_current [of st4] by (auto split: if_splits)
      qed
      with t1 t2 True show ?thesis by (simp add: parse_function_call.simps(2) Let_def)
    qed
  qed

  show ?thesis
    unfolding safe_def
    apply (intro conjI allI impI)
    subgoal by (rule 1)
    subgoal by (rule 2)
    subgoal by (rule 3)
    subgoal by (rule 4)
    subgoal by (rule 5)
    subgoal by (rule 6)
    subgoal by (rule 7)
    done
qed

lemma safe_all: "safe fl n"
  by (induction n) (simp_all add: safe_0 safe_Suc)

subsection \<open>The errors a run can raise\<close>

lemma numeric_ok_suffix: "numeric_ok fl (a @ b) \<Longrightarrow> numeric_ok fl b"
  by (simp add: numeric_ok_def)

lemma expected_error_consumed:
  "consumed st st' c \<Longrightarrow> expected_error fl st' e \<Longrightarrow> expected_error fl st e"
  by (auto simp: expected_error_def consumed_def numeric_ok_def)

lemma expected_error_advance: "expected_error fl (advance st) e \<Longrightarrow> expected_error fl st e"
  by (cases "rest st") (auto simp: expected_error_def numeric_ok_def)

lemma expected_error_expr:
  "expr_post st nd st' \<Longrightarrow> expected_error fl st' e \<Longrightarrow> expected_error fl st e"
  by (auto simp: expr_post_def intro: expected_error_consumed)

lemma expected_error_args:
  "args_post st a b st' \<Longrightarrow> expected_error fl st' e \<Longrightarrow> expected_error fl st e"
  by (auto simp: args_post_def intro: expected_error_consumed)

lemma expected_error_Syntax [simp]: "expected_error fl st (SyntaxError m)"
  by (simp add: expected_error_def)

lemma expected_error_Attribute [simp]: "expected_error fl st AttributeError"
  by (simp add: expected_error_def)

lemma expected_error_Value:
  "consistent st \<Longrightarrow> current_token st = Some t \<Longrightarrow>
   (tok_type t = INTEGER \<and> python_int (tok_value t) = None) \<or>
   (tok_type t = FLOAT \<and> fl (tok_value t) = None) \<Longrightarrow> expected_error fl st ValueError"
  by (cases "rest st") (auto simp: expected_error_def numeric_ok_def consistent_def)

lemma closing_error:
  "(case current_token st of
      None \<Rightarrow> Some (Inl AttributeError)
    | Some t \<Rightarrow> if tok_type t \<noteq> RPAREN then Some (Inl (SyntaxError (Expected_rparen (position t))))
                else Some (Inr r)) = Some (Inl e) \<Longrightarrow>
   (\<exists>m. e = SyntaxError m) \<or> e = AttributeError"
  by (auto split: option.splits if_splits)

lemma clean_0: "clean fl 0"
  by (simp add: clean_def)

lemma clean_Suc:
  assumes "clean fl n"
  shows "clean fl (Suc n)"
proof -
  have pe: "consistent st \<Longrightarrow> parse_expression fl n st = Some (Inl e) \<Longrightarrow>
      expected_error fl st e" for st e
    using assms by (simp add: clean_def)
  have pbe: "consistent st \<Longrightarrow> parse_binary_expression fl n mp st = Some (Inl e) \<Longrightarrow>
      expected_error fl st e" for mp st e
    using assms by (simp add: clean_def)
  have bl: "consistent st \<Longrightarrow> binary_loop fl n mp left st = Some (Inl e) \<Longrightarrow>
      expected_error fl st e" for mp left st e
    using assms by (simp add: clean_def)
  have pp: "consistent st \<Longrightarrow> parse_primary fl n st = Some (Inl e) \<Longrightarrow>
      expected_error fl st e" for st e
    using assms by (simp add: clean_def)
  have pfc: "consistent st \<Longrightarrow> parse_function_call fl n ft st = Some (Inl e) \<Longrightarrow>
      expected_error fl st e" for ft st e
    using assms by (simp add: clean_def)
  have al: "consistent st \<Longrightarrow> arguments_loop fl n args st = Some (Inl e) \<Longrightarrow>
      expected_error fl st e" for args st e
    using assms by (simp add: clean_def)
  have ppe: "consistent st \<Longrightarrow> parse_parenthesized_expression fl n st = Some (Inl e) \<Longrightarrow>
      expected_error fl st e" for st e
    using assms by (simp add: clean_def)

  have 1: "expected_error fl st e"
    if "consistent st" "parse_expression fl (Suc n) st = Some (Inl e)" for st e
    using that pbe by (simp add: parse_expression.simps(2))

  have 2: "expected_error fl st e"
    if c: "consistent st" and r: "parse_binary_expression fl (Suc n) mp st = Some (Inl e)"
    for mp st e
  proof -
    from r consider "parse_primary fl n st = Some (Inl e)"
      | left st1 where "parse_primary fl n st = Some (Inr (left, st1))"
          "binary_loop fl n mp left st1 = Some (Inl e)"
      by (auto simp: parse_binary_expression.simps(2) and_then_eq_Inl)
    then show ?thesis
    proof cases
      case 1
      then show ?thesis using c by (intro pp)
    next
      case 2
      have p: "expr_post st left st1" using parse_primary_sound [OF c 2(1)] .
      show ?thesis
        using p bl [OF expr_post_consumed [OF p] 2(2)] by (rule expected_error_expr)
    qed
  qed

  have 3: "expected_error fl st e"
    if c: "consistent st" and r: "binary_loop fl (Suc n) mp left st = Some (Inl e)"
    for mp left st e
  proof (cases "current_token st")
    case None
    with r show ?thesis by (simp add: binary_loop.simps(2))
  next
    case (Some t)
    with r consider nmp where "parse_binary_expression fl n nmp (advance st) = Some (Inl e)"
      | nmp right st2 where
          "parse_binary_expression fl n nmp (advance st) = Some (Inr (right, st2))"
          "binary_loop fl n mp (BinaryOpNode left (tok_value t) right) st2 = Some (Inl e)"
      by (auto simp: binary_loop.simps(2) Let_def and_then_eq_Inl
          split: option.splits if_splits)
    then show ?thesis
    proof cases
      case 1
      show ?thesis using pbe [OF consistent_advance 1] by (rule expected_error_advance)
    next
      case 2
      have p: "expr_post (advance st) right st2"
        using parse_binary_expression_sound [OF consistent_advance 2(1)] .
      have "expected_error fl (advance st) e"
        using p bl [OF expr_post_consumed [OF p] 2(2)] by (rule expected_error_expr)
      then show ?thesis by (rule expected_error_advance)
    qed
  qed

  have 4: "expected_error fl st e"
    if c: "consistent st" and r: "parse_primary fl (Suc n) st = Some (Inl e)" for st e
  proof (cases "current_token st")
    case None
    with r show ?thesis by (simp add: parse_primary.simps(2))
  next
    case (Some t)
    consider (num) "tok_type t \<in> {INTEGER, FLOAT}" | (ident) "tok_type t = IDENTIFIER"
      | (call) "tok_type t \<in> {SIN, COS, TAN, LOG}" | (paren) "tok_type t = LPAREN"
      | (minus) "tok_type t = MINUS" | (plus) "tok_type t = PLUS"
      | (other) "tok_type t \<in> {MULTIPLY, DIVIDE, POWER, RPAREN, COMMA, EOF}"
      by (cases "tok_type t") auto
    then show ?thesis
    proof cases
      case num
      with r Some have "e = ValueError"
        "(tok_type t = INTEGER \<and> python_int (tok_value t) = None) \<or>
         (tok_type t = FLOAT \<and> fl (tok_value t) = None)"
        by (auto simp: parse_primary.simps(2) Let_def split: option.splits if_splits)
      with c Some show ?thesis by (auto intro: expected_error_Value)
    next
      case ident
      with r Some show ?thesis by (auto simp: parse_primary.simps(2))
    next
      case call
      with r Some have "parse_function_call fl n t st = Some (Inl e)"
        by (auto simp: parse_primary.simps(2))
      with c show ?thesis by (intro pfc)
    next
      case paren
      with r Some have "parse_parenthesized_expression fl n st = Some (Inl e)"
        by (auto simp: parse_primary.simps(2))
      with c show ?thesis by (intro ppe)
    next
      case minus
      with r Some have "parse_primary fl n (advance st) = Some (Inl e)"
        by (auto simp: parse_primary.simps(2) and_then_eq_Inl)
      from pp [OF consistent_advance this] show ?thesis by (rule expected_error_advance)
    next
      case plus
      with r Some have "parse_primary fl n (advance st) = Some (Inl e)"
        by (auto simp: parse_primary.simps(2))
      from pp [OF consistent_advance this] show ?thesis by (rule expected_error_advance)
    next
      case other
      with r Some show ?thesis by (auto simp: parse_primary.simps(2))
    qed
  qed

  have 6: "expected_error fl st e"
    if c: "consistent st" and r: "arguments_loop fl (Suc n) args st = Some (Inl e)"
    for args st e
  proof (cases "current_token st")
    case None
    with r show ?thesis by (simp add: arguments_loop.simps(2))
  next
    case (Some t)
    with r consider "parse_expression fl n (advance st) = Some (Inl e)"
      | a st1 where "parse_expression fl n (advance st) = Some (Inr (a, st1))"
          "arguments_loop fl n (args @ [a]) st1 = Some (Inl e)"
      by (auto simp: arguments_loop.simps(2) and_then_eq_Inl split: if_splits)
    then show ?thesis
    proof cases
      case 1
      show ?thesis using pe [OF consistent_advance 1] by (rule expected_error_advance)
    next
      case 2
      have p: "expr_post (advance st) a st1"
        using parse_expression_sound [OF consistent_advance 2(1)] .
      have "expected_error fl (advance st) e"
        using p al [OF expr_post_consumed [OF p] 2(2)] by (rule expected_error_expr)
      then show ?thesis by (rule expected_error_advance)
    qed
  qed

  have 7: "expected_error fl st e"
    if c: "consistent st" and r: "parse_parenthesized_expression fl (Suc n) st = Some (Inl e)"
    for st e
  proof -
    from r consider "parse_expression fl n (advance st) = Some (Inl e)"
      | "\<exists>m. e = SyntaxError m" | "e = AttributeError"
      by (auto simp: parse_parenthesized_expression.simps(2) and_then_eq_Inl
          split: option.splits if_splits)
    then show ?thesis
    proof cases
      case 1
      show ?thesis using pe [OF consistent_advance 1] by (rule expected_error_advance)
    qed auto
  qed

  have 5: "expected_error fl st e"
    if c: "consistent st" and r: "parse_function_call fl (Suc n) ft st = Some (Inl e)"
    for ft st e
  proof -
    let ?st1 = "advance st" and ?st2 = "advance (advance st)"
    show ?thesis
    proof (cases "current_token ?st1")
      case None
      with r show ?thesis by (simp add: parse_function_call.simps(2) Let_def)
    next
      case t1: (Some t1)
      show ?thesis
      proof (cases "tok_type t1 = LPAREN")
        case False
        with r t1 show ?thesis by (auto simp: parse_function_call.simps(2) Let_def)
      next
        case lp: True
        show ?thesis
        proof (cases "current_token ?st2")
          case None
          with r t1 lp show ?thesis by (simp add: parse_function_call.simps(2) Let_def)
        next
          case t2: (Some t2)
          let ?first = "if tok_type t2 \<noteq> RPAREN
             then and_then (parse_expression fl n ?st2)
                    (\<lambda>(argument, st3). arguments_loop fl n [argument] st3)
             else Some (Inr ([], ?st2))"
          let ?closing = "\<lambda>(arguments, st4).
               case current_token st4 of
                 None \<Rightarrow> Some (Inl AttributeError)
               | Some t4 \<Rightarrow>
                   if tok_type t4 \<noteq> RPAREN
                   then Some (Inl (SyntaxError (Expected_rparen (position t4))))
                   else Some (Inr (FunctionCallNode (tok_value ft) arguments, advance st4))"
          from r t1 lp t2 have "and_then ?first ?closing = Some (Inl e)"
            by (simp add: parse_function_call.simps(2) Let_def)
          then have split: "?first = Some (Inl e) \<or>
              (\<exists>x. ?first = Some (Inr x) \<and> ?closing x = Some (Inl e))"
            by (simp only: and_then_eq_Inl)
          have cl: "(\<exists>m. e = SyntaxError m) \<or> e = AttributeError"
            if "?closing x = Some (Inl e)" for x
          proof -
            obtain args st4 where x: "x = (args, st4)" by (cases x)
            from that have "(case current_token st4 of
                 None \<Rightarrow> Some (Inl AttributeError)
               | Some t4 \<Rightarrow>
                   if tok_type t4 \<noteq> RPAREN
                   then Some (Inl (SyntaxError (Expected_rparen (position t4))))
                   else Some (Inr (FunctionCallNode (tok_value ft) args, advance st4))) =
                Some (Inl e)"
              unfolding x by simp
            then show ?thesis by (rule closing_error)
          qed
          show ?thesis
          proof (rule disjE [OF split])
            assume "\<exists>x. ?first = Some (Inr x) \<and> ?closing x = Some (Inl e)"
            then obtain x where x: "?first = Some (Inr x) \<and> ?closing x = Some (Inl e)" ..
            from cl [OF conjunct2 [OF x]] show ?thesis by auto
          next
            assume first: "?first = Some (Inl e)"
            from first have "and_then (parse_expression fl n ?st2)
                (\<lambda>(argument, st3). arguments_loop fl n [argument] st3) = Some (Inl e)"
              by (simp split: if_splits)
            then consider "parse_expression fl n ?st2 = Some (Inl e)"
              | a st3 where "parse_expression fl n ?st2 = Some (Inr (a, st3))"
                  "arguments_loop fl n [a] st3 = Some (Inl e)"
              by (auto simp: and_then_eq_Inl)
            then show ?thesis
            proof cases
              case 1
              have "expected_error fl ?st2 e" using pe [OF consistent_advance 1] .
              then show ?thesis by (rule expected_error_advance [OF expected_error_advance])
            next
              case 2
              have p: "expr_post ?st2 a st3"
                using parse_expression_sound [OF consistent_advance 2(1)] .
              have "expected_error fl ?st2 e"
                using p al [OF expr_post_consumed [OF p] 2(2)] by (rule expected_error_expr)
              then show ?thesis by (rule expected_error_advance [OF expected_error_advance])
            qed
          qed
        qed
      qed
    qed
  qed

  show ?thesis
    unfolding clean_def
    apply (intro conjI allI impI)
    subgoal by (rule 1)
    subgoal by (rule 2)
    subgoal by (rule 3)
    subgoal by (rule 4)
    subgoal by (rule 5)
    subgoal by (rule 6)
    subgoal by (rule 7)
    done
qed

lemma clean_all: "clean fl n"
  by (induction n) (simp_all add: clean_0 clean_Suc)

subsection \<open>The whole run\<close>

lemma parse_tokens_eq: "parse_tokens fl n ts = parse fl n (new_parser ts)"
  by (simp add: parse_tokens_def Parser_init_def)

lemma tokens_new_parser [simp]: "tokens (new_parser ts) = ts"
  by (simp add: new_parser_def)

lemma parse_unfold:
  "ts \<noteq> [] \<Longrightarrow> parse fl n (new_parser ts) =
     and_then (parse_expression fl n (new_parser ts))
       (\<lambda>(e, st1).
          case current_token st1 of
            None \<Rightarrow> Some (Inl AttributeError)
          | Some t \<Rightarrow>
              if tok_type t \<noteq> EOF
              then Some (Inl (SyntaxError (Unexpected_token (position t) t)))
              else Some (Inr (Some (ProgramNode e))))"
  by (cases "parse_expression fl n (new_parser ts)")
    (auto simp: parse_def parse_program_def and_then_def split: sum.splits)

lemma parse_success:
  assumes "ts \<noteq> []" "parse fl n (new_parser ts) = Some (Inr r)"
  shows "\<exists>e st' t. r = Some (ProgramNode e) \<and>
     parse_expression fl n (new_parser ts) = Some (Inr (e, st')) \<and>
     current_token st' = Some t \<and> tok_type t = EOF"
  using assms(2) unfolding parse_unfold [OF assms(1)] and_then_eq_Inr
  by (auto split: option.splits if_splits)

lemma parse_finishes:
  assumes "4 * length ts + 5 \<le> n"
  shows "parse fl n (new_parser ts) \<noteq> None"
proof (cases "ts = []")
  case True
  then show ?thesis by (simp add: parse_def)
next
  case False
  have "parse_expression fl n (new_parser ts) \<noteq> None"
    using finishes_all [of fl n] assms by (simp add: finishes_def)
  then show ?thesis
    unfolding parse_unfold [OF False]
    by (intro and_then_not_None) (auto split: option.splits)
qed

lemma whole_input:
  assumes "eof_terminated ts" "expr_post (new_parser ts) e st'"
    and "current_token st' = Some t" "tok_type t = EOF"
  shows "\<exists>c. ts = c @ [t] \<and> c \<noteq> [] \<and> tokens_ok c \<and>
     leaf_count e = count_type {INTEGER, FLOAT, IDENTIFIER} c \<and> internal_count e < length c"
proof -
  from assms(2) obtain c where c: "consumed (new_parser ts) st' c" "c \<noteq> []" "tokens_ok c"
    "leaf_count e = count_type {INTEGER, FLOAT, IDENTIFIER} c" "internal_count e < length c"
    by (auto simp: expr_post_def)
  from c(1) have st': "consistent st'" and ts: "ts = c @ rest st'"
    by (simp_all add: consumed_def)
  from rest_current [OF st' assms(3)] obtain r where r: "rest st' = t # r" by blast
  have "r = []"
  proof (rule ccontr)
    assume "r \<noteq> []"
    then have "butlast ts = c @ t # butlast r" using ts r by (simp add: butlast_append)
    then have "t \<in> set (butlast ts)" by simp
    with assms(1,4) show False by (force simp: eof_terminated_def)
  qed
  with ts r c show ?thesis by auto
qed

lemma parse_not_attribute_error:
  assumes "eof_terminated ts"
  shows "parse fl n (new_parser ts) \<noteq> Some (Inl AttributeError)"
proof -
  have ne: "ts \<noteq> []" using assms by (simp add: eof_terminated_def)
  have "last ts \<in> set ts" using ne by (rule last_in_set)
  then have h: "has_eof (new_parser ts)"
    using assms unfolding has_eof_def eof_terminated_def rest_new_parser
    by (metis imageI)
  show ?thesis
    unfolding parse_unfold [OF ne]
  proof (rule and_then_not_Inl)
    show "parse_expression fl n (new_parser ts) \<noteq> Some (Inl AttributeError)"
      using safe_all [of fl n] h by (simp add: safe_def)
  next
    fix x assume x: "parse_expression fl n (new_parser ts) = Some (Inr x)"
    obtain e st1 where [simp]: "x = (e, st1)" by (cases x)
    have p: "expr_post (new_parser ts) e st1"
      using parse_expression_sound [OF consistent_new_parser] x by simp
    from has_eof_current [OF expr_post_consumed [OF p] expr_post_has_eof [OF p h]]
    show "(case x of (e, st1) \<Rightarrow>
          case current_token st1 of
            None \<Rightarrow> Some (Inl AttributeError)
          | Some t \<Rightarrow>
              if tok_type t \<noteq> EOF
              then Some (Inl (SyntaxError (Unexpected_token (position t) t)))
              else Some (Inr (Some (ProgramNode e)))) \<noteq> Some (Inl AttributeError)"
      by (auto split: if_splits)
  qed
qed

lemma parse_error_kinds:
  assumes "parse fl n (new_parser ts) = Some (Inl e)"
  shows "(\<exists>m. e = SyntaxError m) \<or> e = AttributeError \<or> (e = ValueError \<and> \<not> numeric_ok fl ts)"
proof -
  have ne: "ts \<noteq> []" using assms by (auto simp: parse_def)
  from assms have "parse_expression fl n (new_parser ts) = Some (Inl e) \<or>
      (\<exists>m. e = SyntaxError m) \<or> e = AttributeError"
    unfolding parse_unfold [OF ne] and_then_eq_Inl
    by (auto split: option.splits if_splits)
  moreover have "expected_error fl (new_parser ts) e"
    if "parse_expression fl n (new_parser ts) = Some (Inl e)"
    using clean_all [of fl n] that by (simp add: clean_def)
  ultimately show ?thesis by (auto simp: expected_error_def)
qed

subsection \<open>Runs on the texts of the specification\<close>

lemma tokens_minus_chain:
  "get_tokens ''2 - 3 - 4'' = Inr
     [Token_init INTEGER ''2'' 0,
      Token_init MINUS ''-'' 2,
      Token_init INTEGER ''3'' 4,
      Token_init MINUS ''-'' 6,
      Token_init INTEGER ''4'' 8,
      Token_init EOF [] 9]"
  by code_simp

lemma tokens_power_chain:
  "get_tokens ''2 ^ 3 ^ 2'' = Inr
     [Token_init INTEGER ''2'' 0,
      Token_init POWER ''^'' 2,
      Token_init INTEGER ''3'' 4,
      Token_init POWER ''^'' 6,
      Token_init INTEGER ''2'' 8,
      Token_init EOF [] 9]"
  by code_simp

lemma tokens_plus_times:
  "get_tokens ''2 + 3 * 4'' = Inr
     [Token_init INTEGER ''2'' 0,
      Token_init PLUS ''+'' 2,
      Token_init INTEGER ''3'' 4,
      Token_init MULTIPLY ''*'' 6,
      Token_init INTEGER ''4'' 8,
      Token_init EOF [] 9]"
  by code_simp

lemma tokens_neg_power:
  "get_tokens ''-2^2'' = Inr
     [Token_init MINUS ''-'' 0,
      Token_init INTEGER ''2'' 1,
      Token_init POWER ''^'' 2,
      Token_init INTEGER ''2'' 3,
      Token_init EOF [] 4]"
  by code_simp

lemma tokens_plus_sign:
  "get_tokens ''+2'' = Inr
     [Token_init PLUS ''+'' 0,
      Token_init INTEGER ''2'' 1,
      Token_init EOF [] 2]"
  by code_simp

lemma tokens_log_call:
  "get_tokens ''log(8, 2)'' = Inr
     [Token_init LOG ''log'' 0,
      Token_init LPAREN ''('' 3,
      Token_init INTEGER ''8'' 4,
      Token_init COMMA '','' 5,
      Token_init INTEGER ''2'' 7,
      Token_init RPAREN '')'' 8,
      Token_init EOF [] 9]"
  by code_simp

lemma tokens_empty_call:
  "get_tokens ''sin()'' = Inr
     [Token_init SIN ''sin'' 0,
      Token_init LPAREN ''('' 3,
      Token_init RPAREN '')'' 4,
      Token_init EOF [] 5]"
  by code_simp

lemma tokens_three_args:
  "get_tokens ''sin(1, 2, 3)'' = Inr
     [Token_init SIN ''sin'' 0,
      Token_init LPAREN ''('' 3,
      Token_init INTEGER ''1'' 4,
      Token_init COMMA '','' 5,
      Token_init INTEGER ''2'' 7,
      Token_init COMMA '','' 8,
      Token_init INTEGER ''3'' 10,
      Token_init RPAREN '')'' 11,
      Token_init EOF [] 12]"
  by code_simp




lemma tokens_two_numbers:
  "get_tokens ''2 3'' = Inr
     [Token_init INTEGER ''2'' 0,
      Token_init INTEGER ''3'' 2,
      Token_init EOF [] 3]"
  by code_simp

lemma tokens_stray_paren:
  "get_tokens ''2 )'' = Inr
     [Token_init INTEGER ''2'' 0,
      Token_init RPAREN '')'' 2,
      Token_init EOF [] 3]"
  by code_simp

lemma run_minus_chain:
  "parse_text fl 20 ''2 - 3 - 4'' =
     Some (Inr (Some (ProgramNode (BinaryOpNode (BinaryOpNode (Number 2) ''-'' (Number 3)) ''-'' (Number 4)))))"
  by (simp add: run_simps tokens_minus_chain python_int_digit Token_init_def)

lemma deep_minus_chain:
  "20 \<le> n \<Longrightarrow> parse_text fl n ''2 - 3 - 4'' =
     Some (Inr (Some (ProgramNode (BinaryOpNode (BinaryOpNode (Number 2) ''-'' (Number 3)) ''-'' (Number 4)))))"
  by (rule parse_text_mono [OF run_minus_chain])

lemma run_power_chain:
  "parse_text fl 20 ''2 ^ 3 ^ 2'' =
     Some (Inr (Some (ProgramNode (BinaryOpNode (Number 2) ''^'' (BinaryOpNode (Number 3) ''^'' (Number 2))))))"
  by (simp add: run_simps tokens_power_chain python_int_digit Token_init_def)

lemma deep_power_chain:
  "20 \<le> n \<Longrightarrow> parse_text fl n ''2 ^ 3 ^ 2'' =
     Some (Inr (Some (ProgramNode (BinaryOpNode (Number 2) ''^'' (BinaryOpNode (Number 3) ''^'' (Number 2))))))"
  by (rule parse_text_mono [OF run_power_chain])

lemma run_plus_times:
  "parse_text fl 20 ''2 + 3 * 4'' =
     Some (Inr (Some (ProgramNode (BinaryOpNode (Number 2) ''+'' (BinaryOpNode (Number 3) ''*'' (Number 4))))))"
  by (simp add: run_simps tokens_plus_times python_int_digit Token_init_def)

lemma deep_plus_times:
  "20 \<le> n \<Longrightarrow> parse_text fl n ''2 + 3 * 4'' =
     Some (Inr (Some (ProgramNode (BinaryOpNode (Number 2) ''+'' (BinaryOpNode (Number 3) ''*'' (Number 4))))))"
  by (rule parse_text_mono [OF run_plus_times])

lemma run_neg_power:
  "parse_text fl 20 ''-2^2'' =
     Some (Inr (Some (ProgramNode (BinaryOpNode (UnaryOpNode ''-'' (Number 2)) ''^'' (Number 2)))))"
  by (simp add: run_simps tokens_neg_power python_int_digit Token_init_def)

lemma deep_neg_power:
  "20 \<le> n \<Longrightarrow> parse_text fl n ''-2^2'' =
     Some (Inr (Some (ProgramNode (BinaryOpNode (UnaryOpNode ''-'' (Number 2)) ''^'' (Number 2)))))"
  by (rule parse_text_mono [OF run_neg_power])

lemma run_plus_sign:
  "parse_text fl 20 ''+2'' =
     Some (Inr (Some (ProgramNode (Number 2))))"
  by (simp add: run_simps tokens_plus_sign python_int_digit Token_init_def)

lemma deep_plus_sign:
  "20 \<le> n \<Longrightarrow> parse_text fl n ''+2'' =
     Some (Inr (Some (ProgramNode (Number 2))))"
  by (rule parse_text_mono [OF run_plus_sign])

lemma run_log_call:
  "parse_text fl 20 ''log(8, 2)'' =
     Some (Inr (Some (ProgramNode (FunctionCallNode ''log'' [Number 8, Number 2]))))"
  by (simp add: run_simps tokens_log_call python_int_digit Token_init_def)

lemma deep_log_call:
  "20 \<le> n \<Longrightarrow> parse_text fl n ''log(8, 2)'' =
     Some (Inr (Some (ProgramNode (FunctionCallNode ''log'' [Number 8, Number 2]))))"
  by (rule parse_text_mono [OF run_log_call])

lemma run_empty_call:
  "parse_text fl 20 ''sin()'' =
     Some (Inr (Some (ProgramNode (FunctionCallNode ''sin'' []))))"
  by (simp add: run_simps tokens_empty_call python_int_digit Token_init_def)

lemma deep_empty_call:
  "20 \<le> n \<Longrightarrow> parse_text fl n ''sin()'' =
     Some (Inr (Some (ProgramNode (FunctionCallNode ''sin'' []))))"
  by (rule parse_text_mono [OF run_empty_call])

lemma run_three_args:
  "parse_text fl 20 ''sin(1, 2, 3)'' =
     Some (Inr (Some (ProgramNode (FunctionCallNode ''sin'' [Number 1, Number 2, Number 3]))))"
  by (simp add: run_simps tokens_three_args python_int_digit Token_init_def)

lemma deep_three_args:
  "20 \<le> n \<Longrightarrow> parse_text fl n ''sin(1, 2, 3)'' =
     Some (Inr (Some (ProgramNode (FunctionCallNode ''sin'' [Number 1, Number 2, Number 3]))))"
  by (rule parse_text_mono [OF run_three_args])







lemma run_two_numbers:
  "parse_text fl 20 ''2 3'' =
     Some (Inl (SyntaxError (Unexpected_token 2 (Token_init INTEGER ''3'' 2))))"
  by (simp add: run_simps tokens_two_numbers python_int_digit Token_init_def)

lemma deep_two_numbers:
  "20 \<le> n \<Longrightarrow> parse_text fl n ''2 3'' =
     Some (Inl (SyntaxError (Unexpected_token 2 (Token_init INTEGER ''3'' 2))))"
  by (rule parse_text_mono [OF run_two_numbers])

lemma run_stray_paren:
  "parse_text fl 20 ''2 )'' =
     Some (Inl (SyntaxError (Unexpected_token 2 (Token_init RPAREN '')'' 2))))"
  by (simp add: run_simps tokens_stray_paren python_int_digit Token_init_def)

lemma deep_stray_paren:
  "20 \<le> n \<Longrightarrow> parse_text fl n ''2 )'' =
     Some (Inl (SyntaxError (Unexpected_token 2 (Token_init RPAREN '')'' 2))))"
  by (rule parse_text_mono [OF run_stray_paren])

subsection \<open>Two operators between three names\<close>

lemma run_same_precedence:
  assumes "tok_type a = IDENTIFIER" "tok_type b = IDENTIFIER" "tok_type c = IDENTIFIER"
    and "tok_type e = EOF"
    and "precedence (tok_type o1) = Some p" "precedence (tok_type o2) = Some p"
  shows "parse_tokens fl 20 [a, o1, b, o2, c, e] =
     Some (Inr (Some (ProgramNode
       (if tok_type o1 = POWER
        then BinaryOpNode (IdentifierNode (tok_value a)) (tok_value o1)
               (BinaryOpNode (IdentifierNode (tok_value b)) (tok_value o2)
                  (IdentifierNode (tok_value c)))
        else BinaryOpNode
               (BinaryOpNode (IdentifierNode (tok_value a)) (tok_value o1)
                  (IdentifierNode (tok_value b)))
               (tok_value o2) (IdentifierNode (tok_value c))))))"
proof -
  from assms(5,6) consider
      "tok_type o1 \<in> {PLUS, MINUS}" "tok_type o2 \<in> {PLUS, MINUS}"
    | "tok_type o1 \<in> {MULTIPLY, DIVIDE}" "tok_type o2 \<in> {MULTIPLY, DIVIDE}"
    | "tok_type o1 = POWER" "tok_type o2 = POWER"
    by (auto simp: precedence_def split: if_splits)
  then show ?thesis
    using assms(1-4) by cases (auto simp: run_simps)
qed

lemma run_low_then_high:
  assumes "tok_type a = IDENTIFIER" "tok_type b = IDENTIFIER" "tok_type c = IDENTIFIER"
    and "tok_type e = EOF"
    and "precedence (tok_type lo) = Some 1" "precedence (tok_type hi) = Some 2"
  shows "parse_tokens fl 20 [a, lo, b, hi, c, e] =
     Some (Inr (Some (ProgramNode
       (BinaryOpNode (IdentifierNode (tok_value a)) (tok_value lo)
          (BinaryOpNode (IdentifierNode (tok_value b)) (tok_value hi)
             (IdentifierNode (tok_value c)))))))"
proof -
  from assms(5,6) have "tok_type lo \<in> {PLUS, MINUS}" "tok_type hi \<in> {MULTIPLY, DIVIDE}"
    by (auto simp: precedence_def split: if_splits)
  then show ?thesis
    using assms(1-4) by (auto simp: run_simps)
qed

lemma run_high_then_low:
  assumes "tok_type a = IDENTIFIER" "tok_type b = IDENTIFIER" "tok_type c = IDENTIFIER"
    and "tok_type e = EOF"
    and "precedence (tok_type lo) = Some 1" "precedence (tok_type hi) = Some 2"
  shows "parse_tokens fl 20 [a, hi, b, lo, c, e] =
     Some (Inr (Some (ProgramNode
       (BinaryOpNode
          (BinaryOpNode (IdentifierNode (tok_value a)) (tok_value hi)
             (IdentifierNode (tok_value b)))
          (tok_value lo) (IdentifierNode (tok_value c))))))"
proof -
  from assms(5,6) have "tok_type lo \<in> {PLUS, MINUS}" "tok_type hi \<in> {MULTIPLY, DIVIDE}"
    by (auto simp: precedence_def split: if_splits)
  then show ?thesis
    using assms(1-4) by (auto simp: run_simps)
qed

subsection \<open>Token lists no run accepts\<close>





subsection \<open>The arguments of a call\<close>

lemma arguments_loop_stop:
  "map_option tok_type (current_token s) = Some ty \<Longrightarrow> ty \<noteq> COMMA \<Longrightarrow>
   arguments_loop fl (Suc k) acc s = Some (Inr (acc, s))"
  by (cases "current_token s") (auto simp: arguments_loop.simps(2))

lemma parse_expression_depth: "parse_expression fl n st = Some r \<Longrightarrow> 0 < n"
  by (cases n) simp_all

lemma argument_runs_depth: "argument_runs fl n st xs \<Longrightarrow> 0 < n"
  by (induction fl n st xs rule: argument_runs.induct) (auto dest: parse_expression_depth)

lemma arguments_loop_runs:
  assumes "argument_runs fl n (advance s) xs"
    and "map_option tok_type (current_token s) = Some COMMA"
    and "map_option tok_type (current_token (snd (last xs))) = Some RPAREN"
    and "n + length xs \<le> k"
  shows "arguments_loop fl k acc s = Some (Inr (acc @ map fst xs, snd (last xs)))"
  using assms
proof (induction xs arbitrary: s acc k)
  case Nil
  then show ?case by simp
next
  case (Cons x xs)
  obtain a s1 where x: "x = (a, s1)" by (cases x)
  from Cons.prems(4) obtain k' where k: "k = Suc k'" and k': "n + length xs \<le> k'"
    by (cases k) auto
  from Cons.prems(2) obtain t where t: "current_token s = Some t" "tok_type t = COMMA"
    by (cases "current_token s") auto
  have pe: "parse_expression fl n (advance s) = Some (Inr (a, s1))"
    using Cons.prems(1) x by (cases xs) auto
  have pe': "parse_expression fl k' (advance s) = Some (Inr (a, s1))"
    using pe k' by (intro parse_expression_mono [OF pe]) simp
  have step: "arguments_loop fl k acc s = arguments_loop fl k' (acc @ [a]) s1"
    using t pe' by (simp add: k arguments_loop.simps(2))
  show ?case
  proof (cases xs)
    case Nil
    have "0 < k'" using parse_expression_depth [OF pe'] .
    then obtain k'' where "k' = Suc k''" by (cases k') auto
    with Cons.prems(3) x Nil show ?thesis
      by (simp add: step arguments_loop_stop)
  next
    case (Cons y ys)
    have r: "argument_runs fl n (advance s1) xs"
      and c: "map_option tok_type (current_token s1) = Some COMMA"
      using Cons.prems(1) x Cons by auto
    have l: "map_option tok_type (current_token (snd (last xs))) = Some RPAREN"
      using Cons.prems(3) Cons by simp
    from Cons.IH [OF r c l k', of "acc @ [a]"] show ?thesis
      using x Cons by (simp add: step)
  qed
qed

lemma function_call_empty:
  assumes "current_token (advance st) = Some t1" "tok_type t1 = LPAREN"
    and "current_token (advance (advance st)) = Some t2" "tok_type t2 = RPAREN"
  shows "parse_function_call fl (Suc k) ft st =
     Some (Inr (FunctionCallNode (tok_value ft) [], advance (advance (advance st))))"
  using assms by (simp add: parse_function_call.simps(2) Let_def)

lemma function_call_arguments:
  assumes "current_token (advance st) = Some t1" "tok_type t1 = LPAREN"
    and "current_token (advance (advance st)) = Some t2" "tok_type t2 \<noteq> RPAREN"
    and "argument_runs fl n (advance (advance st)) xs"
    and "map_option tok_type (current_token (snd (last xs))) = Some RPAREN"
    and "n + length xs \<le> k"
  shows "parse_function_call fl (Suc k) ft st =
     Some (Inr (FunctionCallNode (tok_value ft) (map fst xs), advance (snd (last xs))))"
proof -
  let ?st2 = "advance (advance st)"
  obtain x ys where xs: "xs = x # ys" using assms(5) by (cases xs) auto
  obtain a s1 where x: "x = (a, s1)" by (cases x)
  have pe: "parse_expression fl n ?st2 = Some (Inr (a, s1))"
    using assms(5) xs x by (cases ys) auto
  have pe': "parse_expression fl k ?st2 = Some (Inr (a, s1))"
    using assms(7) by (intro parse_expression_mono [OF pe]) simp
  have loop: "arguments_loop fl k [a] s1 = Some (Inr (map fst xs, snd (last xs)))"
  proof (cases ys)
    case Nil
    have "0 < k" using parse_expression_depth [OF pe'] .
    then obtain k' where "k = Suc k'" by (cases k) auto
    with assms(6) xs x Nil show ?thesis by (simp add: arguments_loop_stop)
  next
    case (Cons y zs)
    have r: "argument_runs fl n (advance s1) ys"
      and c: "map_option tok_type (current_token s1) = Some COMMA"
      using assms(5) xs x Cons by auto
    have l: "map_option tok_type (current_token (snd (last ys))) = Some RPAREN"
      using assms(6) xs Cons by simp
    have "n + length ys \<le> k" using assms(7) xs by simp
    from arguments_loop_runs [OF r c l this, of "[a]"] show ?thesis
      using xs x Cons by simp
  qed
  from assms(6) obtain t4 where t4: "current_token (snd (last xs)) = Some t4"
    "tok_type t4 = RPAREN"
    by (cases "current_token (snd (last xs))") auto
  show ?thesis
    using assms(1-4) pe' loop t4
    by (simp add: parse_function_call.simps(2) Let_def)
qed

section \<open>The claims\<close>

text \<open>
  Claim C1. Higher precedence should bind tighter: \<^verbatim>\<open>a ^ b * c\<close> should parse as
  \<^verbatim>\<open>(a ^ b) * c\<close>. The parser does not do that: after \<^verbatim>\<open>^\<close> it parses the right
  operand with the threshold \<open>3 - 1 = 2\<close>, which lets a following \<^verbatim>\<open>*\<close> or \<^verbatim>\<open>/\<close>
  (precedence 2) into the exponent. The text \<^verbatim>\<open>2 ^ 3 * 4\<close> parses as \<^verbatim>\<open>2 ^ (3 * 4)\<close>.
\<close>

theorem C1_power_then_multiply:
  "parse_text fl 20 ''2 ^ 3 * 4'' =
     Some (Inr (Some (ProgramNode
       (BinaryOpNode (NumberNode (PyInt 2)) ''^''
          (BinaryOpNode (NumberNode (PyInt 3)) ''*'' (NumberNode (PyInt 4)))))))"
  by (simp add: run_simps tokens_power_multiply python_int_digit)

text \<open>
  Claim C10. A parser built from an empty pre-built token list has no current token, and
  \<^verbatim>\<open>parse\<close> returns \<^verbatim>\<open>None\<close>: neither a tree nor an error, at every depth.
\<close>

theorem C10_empty_token_list:
  "Parser_init None (Some []) = Inr (new_parser []) \<and>
   current_token (new_parser []) = None \<and>
   parse fl n (new_parser []) = Some (Inr None) \<and>
   parse_tokens fl n [] = Some (Inr None)"
  by (simp add: parse_tokens_def Parser_init_def parse_def new_parser_def)
text \<open>
  Claim C2. Chains of operators of one precedence associate as specified. For any three
  identifier tokens and any two operator tokens of the same precedence, the parser
  groups to the left when the operators are \<^verbatim>\<open>+ - * /\<close> and to the right when they are
  \<^verbatim>\<open>^\<close>; so \<^verbatim>\<open>2 - 3 - 4\<close> is \<^verbatim>\<open>(2 - 3) - 4\<close> and \<^verbatim>\<open>2 ^ 3 ^ 2\<close> is \<^verbatim>\<open>2 ^ (3 ^ 2)\<close>, at
  every depth from 20 on.
\<close>

theorem C2_associativity:
  "(tok_type a = IDENTIFIER \<and> tok_type b = IDENTIFIER \<and> tok_type c = IDENTIFIER \<and>
    tok_type e = EOF \<and>
    precedence (tok_type o1) = Some p \<and> precedence (tok_type o2) = Some p \<and> 20 \<le> n \<longrightarrow>
      parse_tokens fl n [a, o1, b, o2, c, e] =
        Some (Inr (Some (ProgramNode
          (if tok_type o1 = POWER
           then BinaryOpNode (IdentifierNode (tok_value a)) (tok_value o1)
                  (BinaryOpNode (IdentifierNode (tok_value b)) (tok_value o2)
                     (IdentifierNode (tok_value c)))
           else BinaryOpNode
                  (BinaryOpNode (IdentifierNode (tok_value a)) (tok_value o1)
                     (IdentifierNode (tok_value b)))
                  (tok_value o2) (IdentifierNode (tok_value c))))))) \<and>
   (20 \<le> n \<longrightarrow>
      parse_text fl n ''2 - 3 - 4'' =
        Some (Inr (Some (ProgramNode
          (BinaryOpNode (BinaryOpNode (Number 2) ''-'' (Number 3)) ''-'' (Number 4))))) \<and>
      parse_text fl n ''2 ^ 3 ^ 2'' =
        Some (Inr (Some (ProgramNode
          (BinaryOpNode (Number 2) ''^'' (BinaryOpNode (Number 3) ''^'' (Number 2)))))))"
proof (intro conjI impI)
  assume h: "tok_type a = IDENTIFIER \<and> tok_type b = IDENTIFIER \<and> tok_type c = IDENTIFIER \<and>
    tok_type e = EOF \<and>
    precedence (tok_type o1) = Some p \<and> precedence (tok_type o2) = Some p \<and> 20 \<le> n"
  then have "parse_tokens fl 20 [a, o1, b, o2, c, e] =
        Some (Inr (Some (ProgramNode
          (if tok_type o1 = POWER
           then BinaryOpNode (IdentifierNode (tok_value a)) (tok_value o1)
                  (BinaryOpNode (IdentifierNode (tok_value b)) (tok_value o2)
                     (IdentifierNode (tok_value c)))
           else BinaryOpNode
                  (BinaryOpNode (IdentifierNode (tok_value a)) (tok_value o1)
                     (IdentifierNode (tok_value b)))
                  (tok_value o2) (IdentifierNode (tok_value c))))))"
    by (intro run_same_precedence) simp_all
  then show "parse_tokens fl n [a, o1, b, o2, c, e] =
        Some (Inr (Some (ProgramNode
          (if tok_type o1 = POWER
           then BinaryOpNode (IdentifierNode (tok_value a)) (tok_value o1)
                  (BinaryOpNode (IdentifierNode (tok_value b)) (tok_value o2)
                     (IdentifierNode (tok_value c)))
           else BinaryOpNode
                  (BinaryOpNode (IdentifierNode (tok_value a)) (tok_value o1)
                     (IdentifierNode (tok_value b)))
                  (tok_value o2) (IdentifierNode (tok_value c))))))"
    using h by (elim parse_tokens_mono) simp
qed (simp_all add: deep_minus_chain deep_power_chain)

theorem C2_associativity_witness:
  "parse_tokens (Some :: string \<Rightarrow> string option) 20
      [Token_init IDENTIFIER ''x'' 0, Token_init DIVIDE ''/'' 2, Token_init IDENTIFIER ''y'' 4,
       Token_init DIVIDE ''/'' 6, Token_init IDENTIFIER ''z'' 8, Token_init EOF [] 9] =
     Some (Inr (Some (ProgramNode
       (BinaryOpNode (BinaryOpNode (IdentifierNode ''x'') ''/'' (IdentifierNode ''y'')) ''/''
          (IdentifierNode ''z''))))) \<and>
   parse_tokens (Some :: string \<Rightarrow> string option) 20
      [Token_init IDENTIFIER ''x'' 0, Token_init POWER ''^'' 2, Token_init IDENTIFIER ''y'' 4,
       Token_init POWER ''^'' 6, Token_init IDENTIFIER ''z'' 8, Token_init EOF [] 9] =
     Some (Inr (Some (ProgramNode
       (BinaryOpNode (IdentifierNode ''x'') ''^''
          (BinaryOpNode (IdentifierNode ''y'') ''^'' (IdentifierNode ''z''))))))"
  using
    C2_associativity [of "Token_init IDENTIFIER ''x'' 0" "Token_init IDENTIFIER ''y'' 4"
      "Token_init IDENTIFIER ''z'' 8" "Token_init EOF [] 9" "Token_init DIVIDE ''/'' 2" 2
      "Token_init DIVIDE ''/'' 6" 20 Some]
    C2_associativity [of "Token_init IDENTIFIER ''x'' 0" "Token_init IDENTIFIER ''y'' 4"
      "Token_init IDENTIFIER ''z'' 8" "Token_init EOF [] 9" "Token_init POWER ''^'' 2" 3
      "Token_init POWER ''^'' 6" 20 Some]
  by (simp add: Token_init_def precedence_def)

text \<open>
  Claim C3. Multiplication binds tighter than addition. For any three identifier tokens,
  an operator of precedence 1 (\<^verbatim>\<open>+\<close> or \<^verbatim>\<open>-\<close>) and one of precedence 2 (\<^verbatim>\<open>*\<close> or \<^verbatim>\<open>/\<close>),
  the operator of precedence 2 takes its two neighbours first, whichever comes first in
  the text: \<^verbatim>\<open>a + b * c\<close> is \<^verbatim>\<open>a + (b * c)\<close> and \<^verbatim>\<open>a * b + c\<close> is \<^verbatim>\<open>(a * b) + c\<close>. So
  \<^verbatim>\<open>2 + 3 * 4\<close> parses as \<^verbatim>\<open>2 + (3 * 4)\<close> and not as \<^verbatim>\<open>(2 + 3) * 4\<close>.
\<close>

theorem C3_multiplication_before_addition:
  "(tok_type a = IDENTIFIER \<and> tok_type b = IDENTIFIER \<and> tok_type c = IDENTIFIER \<and>
    tok_type e = EOF \<and>
    precedence (tok_type lo) = Some 1 \<and> precedence (tok_type hi) = Some 2 \<and> 20 \<le> n \<longrightarrow>
      parse_tokens fl n [a, lo, b, hi, c, e] =
        Some (Inr (Some (ProgramNode
          (BinaryOpNode (IdentifierNode (tok_value a)) (tok_value lo)
             (BinaryOpNode (IdentifierNode (tok_value b)) (tok_value hi)
                (IdentifierNode (tok_value c))))))) \<and>
      parse_tokens fl n [a, hi, b, lo, c, e] =
        Some (Inr (Some (ProgramNode
          (BinaryOpNode
             (BinaryOpNode (IdentifierNode (tok_value a)) (tok_value hi)
                (IdentifierNode (tok_value b)))
             (tok_value lo) (IdentifierNode (tok_value c))))))) \<and>
   (20 \<le> n \<longrightarrow>
      parse_text fl n ''2 + 3 * 4'' =
        Some (Inr (Some (ProgramNode
          (BinaryOpNode (Number 2) ''+'' (BinaryOpNode (Number 3) ''*'' (Number 4)))))) \<and>
      parse_text fl n ''2 + 3 * 4'' \<noteq>
        Some (Inr (Some (ProgramNode
          (BinaryOpNode (BinaryOpNode (Number 2) ''+'' (Number 3)) ''*'' (Number 4))))))"
proof (intro conjI impI)
  assume h: "tok_type a = IDENTIFIER \<and> tok_type b = IDENTIFIER \<and> tok_type c = IDENTIFIER \<and>
    tok_type e = EOF \<and>
    precedence (tok_type lo) = Some 1 \<and> precedence (tok_type hi) = Some 2 \<and> 20 \<le> n"
  then have "parse_tokens fl 20 [a, lo, b, hi, c, e] =
        Some (Inr (Some (ProgramNode
          (BinaryOpNode (IdentifierNode (tok_value a)) (tok_value lo)
             (BinaryOpNode (IdentifierNode (tok_value b)) (tok_value hi)
                (IdentifierNode (tok_value c)))))))"
    by (intro run_low_then_high) simp_all
  then show "parse_tokens fl n [a, lo, b, hi, c, e] =
        Some (Inr (Some (ProgramNode
          (BinaryOpNode (IdentifierNode (tok_value a)) (tok_value lo)
             (BinaryOpNode (IdentifierNode (tok_value b)) (tok_value hi)
                (IdentifierNode (tok_value c)))))))"
    using h by (elim parse_tokens_mono) simp
  from h have "parse_tokens fl 20 [a, hi, b, lo, c, e] =
        Some (Inr (Some (ProgramNode
          (BinaryOpNode
             (BinaryOpNode (IdentifierNode (tok_value a)) (tok_value hi)
                (IdentifierNode (tok_value b)))
             (tok_value lo) (IdentifierNode (tok_value c))))))"
    by (intro run_high_then_low) simp_all
  then show "parse_tokens fl n [a, hi, b, lo, c, e] =
        Some (Inr (Some (ProgramNode
          (BinaryOpNode
             (BinaryOpNode (IdentifierNode (tok_value a)) (tok_value hi)
                (IdentifierNode (tok_value b)))
             (tok_value lo) (IdentifierNode (tok_value c))))))"
    using h by (elim parse_tokens_mono) simp
qed (simp_all add: deep_plus_times)

theorem C3_multiplication_before_addition_witness:
  "parse_tokens (Some :: string \<Rightarrow> string option) 20
      [Token_init IDENTIFIER ''x'' 0, Token_init PLUS ''+'' 2, Token_init IDENTIFIER ''y'' 4,
       Token_init MULTIPLY ''*'' 6, Token_init IDENTIFIER ''z'' 8, Token_init EOF [] 9] =
     Some (Inr (Some (ProgramNode
       (BinaryOpNode (IdentifierNode ''x'') ''+''
          (BinaryOpNode (IdentifierNode ''y'') ''*'' (IdentifierNode ''z'')))))) \<and>
   parse_tokens (Some :: string \<Rightarrow> string option) 20
      [Token_init IDENTIFIER ''x'' 0, Token_init MULTIPLY ''*'' 6, Token_init IDENTIFIER ''y'' 4,
       Token_init PLUS ''+'' 2, Token_init IDENTIFIER ''z'' 8, Token_init EOF [] 9] =
     Some (Inr (Some (ProgramNode
       (BinaryOpNode (BinaryOpNode (IdentifierNode ''x'') ''*'' (IdentifierNode ''y'')) ''+''
          (IdentifierNode ''z'')))))"
  using
    C3_multiplication_before_addition [of "Token_init IDENTIFIER ''x'' 0"
      "Token_init IDENTIFIER ''y'' 4" "Token_init IDENTIFIER ''z'' 8" "Token_init EOF [] 9"
      "Token_init PLUS ''+'' 2" "Token_init MULTIPLY ''*'' 6" 20 Some]
  by (simp add: Token_init_def precedence_def)

text \<open>
  Claim C4. In \<^verbatim>\<open>parse_primary\<close> a leading \<^verbatim>\<open>-\<close> is consumed, one primary is parsed
  after it (by \<^verbatim>\<open>parse_primary\<close>, not \<^verbatim>\<open>parse_expression\<close>) and wrapped in a
  \<^verbatim>\<open>UnaryOp\<close>; a leading \<^verbatim>\<open>+\<close> is consumed and the following primary is returned as
  it is. So \<^verbatim>\<open>-2^2\<close> parses as \<^verbatim>\<open>(-2)^2\<close>, and \<^verbatim>\<open>+2\<close> as the number alone.
\<close>

theorem C4_unary_sign:
  "(current_token st = Some t \<and> tok_type t = MINUS \<longrightarrow>
      parse_primary fl (Suc k) st =
        and_then (parse_primary fl k (advance st))
          (\<lambda>(operand, st1). Some (Inr (UnaryOpNode ''-'' operand, st1)))) \<and>
   (current_token st = Some t \<and> tok_type t = PLUS \<longrightarrow>
      parse_primary fl (Suc k) st = parse_primary fl k (advance st)) \<and>
   (20 \<le> n \<longrightarrow>
      parse_text fl n ''-2^2'' =
        Some (Inr (Some (ProgramNode
          (BinaryOpNode (UnaryOpNode ''-'' (Number 2)) ''^'' (Number 2))))) \<and>
      parse_text fl n ''+2'' = Some (Inr (Some (ProgramNode (Number 2)))))"
  by (simp add: parse_primary.simps(2) deep_neg_power deep_plus_sign)

theorem C4_unary_sign_witness:
  "parse_primary (Some :: string \<Rightarrow> string option) (Suc 1)
      (new_parser [Token_init MINUS ''-'' 0, Token_init INTEGER ''2'' 1, Token_init EOF [] 2]) =
     Some (Inr (UnaryOpNode ''-'' (Number 2),
       advance (advance (new_parser
         [Token_init MINUS ''-'' 0, Token_init INTEGER ''2'' 1, Token_init EOF [] 2])))) \<and>
   parse_primary (Some :: string \<Rightarrow> string option) (Suc 1)
      (new_parser [Token_init PLUS ''+'' 0, Token_init INTEGER ''2'' 1, Token_init EOF [] 2]) =
     Some (Inr (Number 2,
       advance (advance (new_parser
         [Token_init PLUS ''+'' 0, Token_init INTEGER ''2'' 1, Token_init EOF [] 2])))) \<and>
   parse_text (Some :: string \<Rightarrow> string option) 20 ''-2^2'' =
     Some (Inr (Some (ProgramNode
       (BinaryOpNode (UnaryOpNode ''-'' (Number 2)) ''^'' (Number 2)))))"
  using
    C4_unary_sign [of "new_parser [Token_init MINUS ''-'' 0, Token_init INTEGER ''2'' 1,
      Token_init EOF [] 2]" "Token_init MINUS ''-'' 0" Some 1 20]
    C4_unary_sign [of "new_parser [Token_init PLUS ''+'' 0, Token_init INTEGER ''2'' 1,
      Token_init EOF [] 2]" "Token_init PLUS ''+'' 0" Some 1 20]
  by (simp add: new_parser_def Token_init_def advance_def parse_primary.simps(2)
      python_int_digit)

text \<open>
  Claim C7. When \<^verbatim>\<open>parse_program\<close> has returned and the current token is not \<open>EOF\<close>,
  \<^verbatim>\<open>parse\<close> raises the \<^verbatim>\<open>SyntaxError\<close> that names this token and its position, and
  returns the tree only when the token is \<open>EOF\<close>; so for \<^verbatim>\<open>2 3\<close> and for a stray
  \<^verbatim>\<open>)\<close>.
\<close>

theorem C7_trailing_tokens:
  "(tokens st \<noteq> [] \<and> parse_program fl k st = Some (Inr (ast, st')) \<and>
    current_token st' = Some t \<longrightarrow>
      parse fl k st =
        (if tok_type t \<noteq> EOF
         then Some (Inl (SyntaxError (Unexpected_token (position t) t)))
         else Some (Inr (Some ast)))) \<and>
   (20 \<le> n \<longrightarrow>
      parse_text fl n ''2 3'' =
        Some (Inl (SyntaxError (Unexpected_token 2 (Token_init INTEGER ''3'' 2)))) \<and>
      parse_text fl n ''2 )'' =
        Some (Inl (SyntaxError (Unexpected_token 2 (Token_init RPAREN '')'' 2)))))"
  by (simp add: parse_def deep_two_numbers deep_stray_paren)

theorem C7_trailing_tokens_witness:
  "parse (Some :: string \<Rightarrow> string option) 20
      (new_parser [Token_init INTEGER ''2'' 0, Token_init INTEGER ''3'' 2, Token_init EOF [] 3]) =
     Some (Inl (SyntaxError (Unexpected_token 2 (Token_init INTEGER ''3'' 2)))) \<and>
   parse_text (Some :: string \<Rightarrow> string option) 20 ''2 )'' =
     Some (Inl (SyntaxError (Unexpected_token 2 (Token_init RPAREN '')'' 2))))"
  using C7_trailing_tokens [of
      "new_parser [Token_init INTEGER ''2'' 0, Token_init INTEGER ''3'' 2, Token_init EOF [] 3]"
      Some 20 "ProgramNode (Number 2)"
      "advance (new_parser
         [Token_init INTEGER ''2'' 0, Token_init INTEGER ''3'' 2, Token_init EOF [] 3])"
      "Token_init INTEGER ''3'' 2" 20]
  by (simp add: run_simps python_int_digit Token_init_def)

text \<open>
  Claim C8. For a token list that ends in its only \<open>EOF\<close> token and a depth of at least
  four times its length plus five, a run of \<^verbatim>\<open>parse\<close> that raises no error returns a
  \<^verbatim>\<open>Program\<close> with one leaf for every \<open>INTEGER\<close>, \<open>FLOAT\<close> or \<open>IDENTIFIER\<close> token and with
  fewer internal nodes than there are tokens. (At that depth every run returns or raises,
  by \<open>parse_finishes\<close>. The depth bounds calls and loop turns alike; the recursion limit
  of an interpreter, which stops a deeply nested run with \<^verbatim>\<open>RecursionError\<close>, is not
  told apart from a depth that is too small.)
\<close>

theorem C8_leaves_and_internal_nodes:
  assumes "eof_terminated ts" and "4 * length ts + 5 \<le> n"
    and "\<forall>e. parse_tokens fl n ts \<noteq> Some (Inl e)"
  shows "\<exists>e. parse_tokens fl n ts = Some (Inr (Some (ProgramNode e))) \<and>
     leaf_count (ProgramNode e) = count_type {INTEGER, FLOAT, IDENTIFIER} ts \<and>
     internal_count (ProgramNode e) < length ts"
proof -
  have ne: "ts \<noteq> []" using assms(1) by (simp add: eof_terminated_def)
  from parse_finishes [OF assms(2), of fl] assms(3)
  obtain r where r: "parse fl n (new_parser ts) = Some (Inr r)"
    by (cases "parse fl n (new_parser ts)") (auto simp: parse_tokens_eq intro: sum.exhaust)
  from parse_success [OF ne r] obtain e st' t where
    e: "r = Some (ProgramNode e)"
    "parse_expression fl n (new_parser ts) = Some (Inr (e, st'))"
    "current_token st' = Some t" "tok_type t = EOF"
    by blast
  have "expr_post (new_parser ts) e st'"
    using parse_expression_sound [OF consistent_new_parser e(2)] .
  from whole_input [OF assms(1) this e(3,4)] obtain c where
    c: "ts = c @ [t]" "leaf_count e = count_type {INTEGER, FLOAT, IDENTIFIER} c"
    "internal_count e < length c"
    by blast
  show ?thesis
    using r e(1,4) c by (intro exI [of _ e]) (simp add: parse_tokens_eq)
qed

theorem C8_leaves_and_internal_nodes_witness:
  "eof_terminated
     [Token_init INTEGER ''2'' 0, Token_init PLUS ''+'' 2, Token_init INTEGER ''3'' 4,
      Token_init MULTIPLY ''*'' 6, Token_init INTEGER ''4'' 8, Token_init EOF [] 9] \<and>
   4 * length
     [Token_init INTEGER ''2'' 0, Token_init PLUS ''+'' 2, Token_init INTEGER ''3'' 4,
      Token_init MULTIPLY ''*'' 6, Token_init INTEGER ''4'' 8, Token_init EOF [] 9] + 5 \<le> 29 \<and>
   (\<exists>e. parse_tokens (Some :: string \<Rightarrow> string option) 29
       [Token_init INTEGER ''2'' 0, Token_init PLUS ''+'' 2, Token_init INTEGER ''3'' 4,
      Token_init MULTIPLY ''*'' 6, Token_init INTEGER ''4'' 8, Token_init EOF [] 9] =
       Some (Inr (Some (ProgramNode e))) \<and>
     leaf_count (ProgramNode e) =
       count_type {INTEGER, FLOAT, IDENTIFIER}
         [Token_init INTEGER ''2'' 0, Token_init PLUS ''+'' 2, Token_init INTEGER ''3'' 4,
      Token_init MULTIPLY ''*'' 6, Token_init INTEGER ''4'' 8, Token_init EOF [] 9] \<and>
     internal_count (ProgramNode e) <
       length
         [Token_init INTEGER ''2'' 0, Token_init PLUS ''+'' 2, Token_init INTEGER ''3'' 4,
      Token_init MULTIPLY ''*'' 6, Token_init INTEGER ''4'' 8, Token_init EOF [] 9])"
proof -
  let ?ts = "[Token_init INTEGER ''2'' 0, Token_init PLUS ''+'' 2, Token_init INTEGER ''3'' 4,
      Token_init MULTIPLY ''*'' 6, Token_init INTEGER ''4'' 8, Token_init EOF [] 9]"
  have 1: "eof_terminated ?ts" by (simp add: eof_terminated_def Token_init_def)
  have 2: "4 * length ?ts + 5 \<le> 29" by simp
  have "parse_tokens (Some :: string \<Rightarrow> string option) 29 ?ts =
      Some (Inr (Some (ProgramNode
        (BinaryOpNode (Number 2) ''+'' (BinaryOpNode (Number 3) ''*'' (Number 4))))))"
    by (simp add: run_simps python_int_digit Token_init_def)
  then have 3: "\<forall>e. parse_tokens (Some :: string \<Rightarrow> string option) 29 ?ts \<noteq> Some (Inl e)"
    by simp
  show ?thesis
    by (intro conjI 1 2 C8_leaves_and_internal_nodes [OF 1 2 3])
qed

text \<open>
  Claim C9, as stated, fails: a pre-built token list may hold an \<open>INTEGER\<close> token whose
  value is no numeral. \<^verbatim>\<open>int\<close> then raises \<^verbatim>\<open>ValueError\<close>, which is neither a tree nor a
  \<^verbatim>\<open>SyntaxError\<close>.
\<close>

theorem C9_counterexample:
  "eof_terminated [Token_init INTEGER ''abc'' 0, Token_init EOF [] 3] \<and>
   parse_tokens (Some :: string \<Rightarrow> string option) 13
     [Token_init INTEGER ''abc'' 0, Token_init EOF [] 3] = Some (Inl ValueError)"
proof -
  have "python_int ''abc'' = None" by code_simp
  then show ?thesis
    by (simp add: run_simps Token_init_def eof_terminated_def)
qed

text \<open>
  Claim C9, amended. For a token list that ends in its only \<open>EOF\<close> token, no run of
  \<^verbatim>\<open>parse\<close>, at any depth, reads \<^verbatim>\<open>current_token.type\<close> of a missing token: the
  \<^verbatim>\<open>AttributeError\<close> is never raised. At a depth of four times the length plus five the
  run returns a tree, raises a \<^verbatim>\<open>SyntaxError\<close>, or raises the \<^verbatim>\<open>ValueError\<close> of \<^verbatim>\<open>int\<close> or
  \<^verbatim>\<open>float\<close>, the last only when the value of some number token is not a numeric literal.
  (The recursion limit of an interpreter is not told apart from a depth that is too
  small.)
\<close>

theorem C9_no_missing_token:
  assumes "eof_terminated ts"
  shows "parse_tokens fl n ts \<noteq> Some (Inl AttributeError) \<and>
     (4 * length ts + 5 \<le> n \<longrightarrow>
        (\<exists>e. parse_tokens fl n ts = Some (Inr (Some (ProgramNode e)))) \<or>
        (\<exists>m. parse_tokens fl n ts = Some (Inl (SyntaxError m))) \<or>
        (parse_tokens fl n ts = Some (Inl ValueError) \<and> \<not> numeric_ok fl ts))"
proof (intro conjI impI)
  show na: "parse_tokens fl n ts \<noteq> Some (Inl AttributeError)"
    using parse_not_attribute_error [OF assms] by (simp add: parse_tokens_eq)
  assume d: "4 * length ts + 5 \<le> n"
  have ne: "ts \<noteq> []" using assms by (simp add: eof_terminated_def)
  from parse_finishes [OF d, of fl] obtain r where r: "parse fl n (new_parser ts) = Some r"
    by blast
  show "(\<exists>e. parse_tokens fl n ts = Some (Inr (Some (ProgramNode e)))) \<or>
        (\<exists>m. parse_tokens fl n ts = Some (Inl (SyntaxError m))) \<or>
        (parse_tokens fl n ts = Some (Inl ValueError) \<and> \<not> numeric_ok fl ts)"
  proof (cases r)
    case (Inl e)
    with r parse_error_kinds [of fl n ts e] na show ?thesis
      by (auto simp: parse_tokens_eq)
  next
    case (Inr x)
    with r parse_success [OF ne, of fl n x] show ?thesis
      by (auto simp: parse_tokens_eq)
  qed
qed

theorem C9_no_missing_token_witness:
  "eof_terminated [Token_init INTEGER ''abc'' 0, Token_init EOF [] 3] \<and>
   4 * length [Token_init INTEGER ''abc'' 0, Token_init EOF [] 3] + 5 \<le> 13 \<and>
   parse_tokens (Some :: string \<Rightarrow> string option) 13
     [Token_init INTEGER ''abc'' 0, Token_init EOF [] 3] \<noteq> Some (Inl AttributeError) \<and>
   ((\<exists>e. parse_tokens (Some :: string \<Rightarrow> string option) 13
          [Token_init INTEGER ''abc'' 0, Token_init EOF [] 3] = Some (Inr (Some (ProgramNode e)))) \<or>
    (\<exists>m. parse_tokens (Some :: string \<Rightarrow> string option) 13
          [Token_init INTEGER ''abc'' 0, Token_init EOF [] 3] = Some (Inl (SyntaxError m))) \<or>
    (parse_tokens (Some :: string \<Rightarrow> string option) 13
          [Token_init INTEGER ''abc'' 0, Token_init EOF [] 3] = Some (Inl ValueError) \<and>
     \<not> numeric_ok (Some :: string \<Rightarrow> string option)
          [Token_init INTEGER ''abc'' 0, Token_init EOF [] 3]))"
proof -
  have 1: "eof_terminated [Token_init INTEGER ''abc'' 0, Token_init EOF [] 3]"
    by (simp add: eof_terminated_def Token_init_def)
  have 2: "4 * length [Token_init INTEGER ''abc'' 0, Token_init EOF [] 3] + 5 \<le> 13"
    by simp
  note t = C9_no_missing_token [OF 1, of Some 13]
  show ?thesis
    by (intro conjI 1 2 conjunct1 [OF t] mp [OF conjunct2 [OF t] 2])
qed



text \<open>
  Claim C5. A well-formed call parses to \<^verbatim>\<open>FunctionCall(name, arguments)\<close> with the
  arguments in the order of the text, however many: after the name and \<^verbatim>\<open>(\<close>, either
  \<^verbatim>\<open>)\<close> follows and the list is empty, or the expressions \<open>xs\<close>, separated by commas and
  followed by \<^verbatim>\<open>)\<close>, are parsed one after the other and become the arguments. So
  \<^verbatim>\<open>log(8, 2)\<close>, \<^verbatim>\<open>sin()\<close> and, no arity being checked, \<^verbatim>\<open>sin(1, 2, 3)\<close>.
\<close>

theorem C5_function_call:
  "(current_token (advance st) = Some t1 \<and> tok_type t1 = LPAREN \<and>
    current_token (advance (advance st)) = Some t2 \<and> tok_type t2 = RPAREN \<longrightarrow>
      parse_function_call fl (Suc k) ft st =
        Some (Inr (FunctionCallNode (tok_value ft) [], advance (advance (advance st))))) \<and>
   (current_token (advance st) = Some t1 \<and> tok_type t1 = LPAREN \<and>
    current_token (advance (advance st)) = Some t2 \<and> tok_type t2 \<noteq> RPAREN \<and>
    argument_runs fl n (advance (advance st)) xs \<and>
    map_option tok_type (current_token (snd (last xs))) = Some RPAREN \<and>
    n + length xs \<le> k \<longrightarrow>
      parse_function_call fl (Suc k) ft st =
        Some (Inr (FunctionCallNode (tok_value ft) (map fst xs),
                   advance (snd (last xs))))) \<and>
   (20 \<le> d \<longrightarrow>
      parse_text fl d ''log(8, 2)'' =
        Some (Inr (Some (ProgramNode (FunctionCallNode ''log'' [Number 8, Number 2])))) \<and>
      parse_text fl d ''sin()'' =
        Some (Inr (Some (ProgramNode (FunctionCallNode ''sin'' [])))) \<and>
      parse_text fl d ''sin(1, 2, 3)'' =
        Some (Inr (Some (ProgramNode
          (FunctionCallNode ''sin'' [Number 1, Number 2, Number 3])))))"
proof (intro conjI impI)
  assume g: "current_token (advance st) = Some t1 \<and> tok_type t1 = LPAREN \<and>
    current_token (advance (advance st)) = Some t2 \<and> tok_type t2 = RPAREN"
  show "parse_function_call fl (Suc k) ft st =
        Some (Inr (FunctionCallNode (tok_value ft) [], advance (advance (advance st))))"
    by (rule function_call_empty [of st t1 t2]) (use g in simp_all)
next
  assume h: "current_token (advance st) = Some t1 \<and> tok_type t1 = LPAREN \<and>
    current_token (advance (advance st)) = Some t2 \<and> tok_type t2 \<noteq> RPAREN \<and>
    argument_runs fl n (advance (advance st)) xs \<and>
    map_option tok_type (current_token (snd (last xs))) = Some RPAREN \<and>
    n + length xs \<le> k"
  show "parse_function_call fl (Suc k) ft st =
        Some (Inr (FunctionCallNode (tok_value ft) (map fst xs), advance (snd (last xs))))"
    by (rule function_call_arguments [of st t1 t2 fl n xs k]) (use h in simp_all)
qed (simp_all add: deep_log_call deep_empty_call deep_three_args)

theorem C5_function_call_witness:
  "parse_function_call (Some :: string \<Rightarrow> string option) (Suc 5) (Token_init LOG ''log'' 0)
     (new_parser
       [Token_init LOG ''log'' 0, Token_init LPAREN ''('' 3, Token_init INTEGER ''8'' 4,
      Token_init COMMA '','' 5, Token_init INTEGER ''2'' 7, Token_init RPAREN '')'' 8,
      Token_init EOF [] 9]) =
     Some (Inr (FunctionCallNode ''log'' [Number 8, Number 2],
       advance (advance (advance (advance (advance (advance (new_parser
       [Token_init LOG ''log'' 0, Token_init LPAREN ''('' 3, Token_init INTEGER ''8'' 4,
      Token_init COMMA '','' 5, Token_init INTEGER ''2'' 7, Token_init RPAREN '')'' 8,
      Token_init EOF [] 9])))))))) \<and>
   parse_function_call (Some :: string \<Rightarrow> string option) (Suc 0) (Token_init SIN ''sin'' 0)
     (new_parser
       [Token_init SIN ''sin'' 0, Token_init LPAREN ''('' 3, Token_init RPAREN '')'' 4,
      Token_init EOF [] 5]) =
     Some (Inr (FunctionCallNode ''sin'' [],
       advance (advance (advance (new_parser
       [Token_init SIN ''sin'' 0, Token_init LPAREN ''('' 3, Token_init RPAREN '')'' 4,
      Token_init EOF [] 5])))))"
proof -
  let ?st = "new_parser
       [Token_init LOG ''log'' 0, Token_init LPAREN ''('' 3, Token_init INTEGER ''8'' 4,
      Token_init COMMA '','' 5, Token_init INTEGER ''2'' 7, Token_init RPAREN '')'' 8,
      Token_init EOF [] 9]"
  let ?se = "new_parser
       [Token_init SIN ''sin'' 0, Token_init LPAREN ''('' 3, Token_init RPAREN '')'' 4,
      Token_init EOF [] 5]"
  let ?xs = "[(Number 8, advance (advance (advance (?st)))), (Number 2, advance (advance (advance (advance (advance (?st))))))]
    :: (string node \<times> parser) list"
  have 1: "current_token (advance ?st) = Some (Token_init LPAREN ''('' 3) \<and>
      tok_type (Token_init LPAREN ''('' 3) = LPAREN \<and>
      current_token (advance (advance ?st)) = Some (Token_init INTEGER ''8'' 4) \<and>
      tok_type (Token_init INTEGER ''8'' 4) \<noteq> RPAREN \<and>
      argument_runs (Some :: string \<Rightarrow> string option) 3 (advance (advance ?st)) ?xs \<and>
      map_option tok_type (current_token (snd (last ?xs))) = Some RPAREN \<and>
      3 + length ?xs \<le> 5"
    by (simp add: run_simps python_int_digit Token_init_def)
  have 2: "current_token (advance ?se) = Some (Token_init LPAREN ''('' 3) \<and>
      tok_type (Token_init LPAREN ''('' 3) = LPAREN \<and>
      current_token (advance (advance ?se)) = Some (Token_init RPAREN '')'' 4) \<and>
      tok_type (Token_init RPAREN '')'' 4) = RPAREN"
    by (simp add: new_parser_def advance_def Token_init_def)
  note t = C5_function_call [of ?st "Token_init LPAREN ''('' 3" "Token_init INTEGER ''8'' 4"
      "Some :: string \<Rightarrow> string option" 5 "Token_init LOG ''log'' 0" 3 ?xs 20]
  note u = C5_function_call [of ?se "Token_init LPAREN ''('' 3" "Token_init RPAREN '')'' 4"
      "Some :: string \<Rightarrow> string option" 0 "Token_init SIN ''sin'' 0" 0 "[]" 20]
  have a: "parse_function_call (Some :: string \<Rightarrow> string option) (Suc 5) (Token_init LOG ''log'' 0) ?st =
      Some (Inr (FunctionCallNode (tok_value (Token_init LOG ''log'' 0)) (map fst ?xs),
        advance (snd (last ?xs))))"
    using mp [OF conjunct1 [OF conjunct2 [OF t]] 1] .
  have b: "parse_function_call (Some :: string \<Rightarrow> string option) (Suc 0) (Token_init SIN ''sin'' 0) ?se =
      Some (Inr (FunctionCallNode (tok_value (Token_init SIN ''sin'' 0)) [],
        advance (advance (advance ?se))))"
    using mp [OF conjunct1 [OF u] 2] .
  from a b show ?thesis
    by (simp add: Token_init_def)
qed

end
